theory Spec2Isabelle
  imports Main
begin

section \<open>Landmark graph\<close>

text \<open>
  The source declares \<^verbatim>\<open>interface Edge { to: string; say: string }\<close> and a table
  \<^verbatim>\<open>edges: Record<string, Edge[]>\<close>. The table is an object literal whose keys keep
  their declaration order, so it is modelled as an association list. Property names
  inherited from the object prototype are not modelled.
\<close>

record Edge =
  to :: string
  say :: string

type_synonym graph = "(string \<times> Edge list) list"

text \<open>\<^verbatim>\<open>edges[cur] || []\<close>: a missing key reads as no edges.\<close>

definition edges_of :: "graph \<Rightarrow> string \<Rightarrow> Edge list" where
  "edges_of g cur = (case map_of g cur of None \<Rightarrow> [] | Some es \<Rightarrow> es)"

section \<open>Path planner: bfsPath\<close>

text \<open>
  The reconstruction loop of \<^verbatim>\<open>bfsPath\<close>:
  \<^verbatim>\<open>while (p !== start) { p = prev[p]; path.push(p); } path.reverse(); return path;\<close>
  A missing \<^verbatim>\<open>prev[p]\<close> makes \<^verbatim>\<open>p\<close> undefined and the loop never ends, so the
  loop is a partial function and \<open>None\<close> stands for not returning.
\<close>

partial_function (option) walk_back ::
  "(string \<rightharpoonup> string) \<Rightarrow> string \<Rightarrow> string \<Rightarrow> string list \<Rightarrow> string list option" where
  "walk_back prev start p path =
     (if p \<noteq> start
      then (case prev p of
              None \<Rightarrow> None
            | Some p' \<Rightarrow> walk_back prev start p' (path @ [p']))
      else Some (rev path))"

text \<open>
  The \<^verbatim>\<open>for (const e of edges[cur] || [])\<close> loop. It either returns from
  \<^verbatim>\<open>bfsPath\<close> with the reconstructed path, or falls through with the updated queue,
  predecessor table and seen set.
\<close>

datatype scan =
    Return "string list option"
  | Continue "string list" "string \<rightharpoonup> string" "string set"

fun scan_edges ::
  "string \<Rightarrow> string \<Rightarrow> string \<Rightarrow> Edge list \<Rightarrow> string list \<Rightarrow> (string \<rightharpoonup> string) \<Rightarrow> string set \<Rightarrow> scan" where
  "scan_edges start goal cur [] q prev seen = Continue q prev seen"
| "scan_edges start goal cur (e # es) q prev seen =
     (let nxt = to e in
      if nxt \<in> seen then scan_edges start goal cur es q prev seen
      else if nxt = goal then Return (walk_back (prev(nxt \<mapsto> cur)) start goal [goal])
      else scan_edges start goal cur es (q @ [nxt]) (prev(nxt \<mapsto> cur)) (insert nxt seen))"

definition targets :: "graph \<Rightarrow> string set" where
  "targets g = (\<Union>(k, es) \<in> set g. to ` set es)"

lemma finite_targets: "finite (targets g)"
  by (auto simp: targets_def)

lemma edges_of_targets: "to ` set (edges_of g cur) \<subseteq> targets g"
proof (cases "map_of g cur")
  case None
  then show ?thesis by (simp add: edges_of_def)
next
  case (Some es)
  then have "(cur, es) \<in> set g" by (rule map_of_SomeD)
  then have "to ` set es \<subseteq> targets g" by (auto simp: targets_def)
  with Some show ?thesis by (simp add: edges_of_def)
qed

lemma scan_edges_measure:
  "scan_edges start goal cur es q prev seen = Continue q' prev' seen' \<Longrightarrow>
   to ` set es \<subseteq> T \<Longrightarrow> finite T \<Longrightarrow>
   card (T - seen') + length q' = card (T - seen) + length q"
proof (induction es arbitrary: q prev seen)
  case Nil
  then show ?case by simp
next
  case (Cons e es)
  show ?case
  proof (cases "to e \<in> seen")
    case True
    with Cons show ?thesis by simp
  next
    case False
    with Cons.prems have ng: "to e \<noteq> goal" by (auto simp: Let_def)
    from Cons.prems False ng have
      "scan_edges start goal cur es (q @ [to e]) (prev(to e \<mapsto> cur)) (insert (to e) seen)
         = Continue q' prev' seen'"
      by (simp add: Let_def)
    from Cons.IH[OF this] Cons.prems have
      "card (T - seen') + length q' = card (T - insert (to e) seen) + length (q @ [to e])"
      by simp
    moreover have "to e \<in> T - seen" using Cons.prems False by auto
    then have "card (T - insert (to e) seen) + 1 = card (T - seen)"
      using \<open>finite T\<close>
      by (metis Diff_insert card_Suc_Diff1 finite_Diff Suc_eq_plus1)
    ultimately show ?thesis by simp
  qed
qed

text \<open>
  The \<^verbatim>\<open>while (q.length)\<close> loop. The outer \<open>None\<close> is not returning, \<open>Some None\<close>
  is the source's \<^verbatim>\<open>null\<close>, \<open>Some (Some p)\<close> a path.
\<close>

function bfs_loop ::
  "graph \<Rightarrow> string \<Rightarrow> string \<Rightarrow> string list \<Rightarrow> (string \<rightharpoonup> string) \<Rightarrow> string set
     \<Rightarrow> string list option option" where
  "bfs_loop g start goal [] prev seen = Some None"
| "bfs_loop g start goal (cur # q) prev seen =
     (case scan_edges start goal cur (edges_of g cur) q prev seen of
        Return r \<Rightarrow> map_option Some r
      | Continue q' prev' seen' \<Rightarrow> bfs_loop g start goal q' prev' seen')"
  by pat_completeness auto
termination
proof (relation "measure (\<lambda>(g, start, goal, q, prev, seen). card (targets g - seen) + length q)")
  show "wf (measure (\<lambda>(g, start, goal, q, prev, seen). card (targets g - seen) + length q))"
    by simp
next
  fix g start goal cur q prev seen q' prev' seen'
  assume "scan_edges start goal cur (edges_of g cur) q prev seen = Continue q' prev' seen'"
  from scan_edges_measure[OF this edges_of_targets finite_targets]
  show "((g, start, goal, q', prev', seen'), (g, start, goal, cur # q, prev, seen))
          \<in> measure (\<lambda>(g, start, goal, q, prev, seen). card (targets g - seen) + length q)"
    by simp
qed

definition bfsPath :: "graph \<Rightarrow> string \<Rightarrow> string \<Rightarrow> string list option option" where
  "bfsPath g start goal =
     (if start = goal then Some (Some [start])
      else bfs_loop g start goal [start] Map.empty {start})"

section \<open>Recognition debouncer: acceptStable\<close>

text \<open>
  \<^verbatim>\<open>const stableMs = 500; let candidate: string | null = null; let candidateSince = 0;\<close>
  The reading of \<^verbatim>\<open>Date.now()\<close> is the parameter \<open>now\<close>. The function is the same
  in NavigationPage and IntegratedNavigation.
\<close>

record debouncer =
  candidate :: "string option"
  candidateSince :: int

definition stableMs :: int where
  "stableMs = 500"

definition debouncer_init :: debouncer where
  "debouncer_init = \<lparr>candidate = None, candidateSince = 0\<rparr>"

definition acceptStable :: "int \<Rightarrow> string \<Rightarrow> debouncer \<Rightarrow> bool \<times> debouncer" where
  "acceptStable now nodeId d =
     (if candidate d \<noteq> Some nodeId
      then (False, d\<lparr>candidate := Some nodeId, candidateSince := now\<rparr>)
      else (now - candidateSince d \<ge> stableMs, d))"

fun acceptStable_calls :: "(int \<times> string) list \<Rightarrow> debouncer \<Rightarrow> bool list \<times> debouncer" where
  "acceptStable_calls [] d = ([], d)"
| "acceptStable_calls ((now, nodeId) # cs) d =
     (let (r, d') = acceptStable now nodeId d;
          (rs, d'') = acceptStable_calls cs d'
      in (r # rs, d''))"

section \<open>Navigation state\<close>

text \<open>
  The tables of a navigation component: \<^verbatim>\<open>nodes\<close>, \<^verbatim>\<open>indexToNode\<close>,
  \<^verbatim>\<open>ACTIVE_NODES\<close> and \<^verbatim>\<open>edges\<close>. The handlers are closed over them, so the model
  takes them as one parameter.
\<close>

record NodeData =
  label :: string

record Config =
  nodes :: "(string \<times> NodeData) list"
  indexToNode :: "(nat \<times> string) list"
  ACTIVE_NODES :: "string set"
  edges :: graph

text \<open>
  \<^verbatim>\<open>nodes[x].label\<close>: reading \<^verbatim>\<open>label\<close> of a missing entry throws a TypeError,
  here the value \<open>None\<close>, turned into \<open>Threw\<close> by the caller.
\<close>

definition node_label :: "Config \<Rightarrow> string \<Rightarrow> string option" where
  "node_label cfg x = map_option label (map_of (nodes cfg) x)"

text \<open>
  A handler run reads \<^verbatim>\<open>Date.now()\<close> up to twice (in \<^verbatim>\<open>onNodeConfirmed\<close> and again
  in \<^verbatim>\<open>startRoutingFrom\<close>); the model takes one reading, \<open>now\<close>, for the run.
  NavigationPage's \<^verbatim>\<open>window.speechSynthesis.cancel()\<close> at the start of
  \<^verbatim>\<open>onNodeConfirmed\<close> acts on the speech queue only, which is not modelled.
\<close>

text \<open>
  The variables of NavigationPage's navigation effect. \<open>spoken\<close> logs the calls of
  \<^verbatim>\<open>speak(msg, {interrupt})\<close> (the message also goes to the status line), \<open>cues\<close>
  counts the \<^verbatim>\<open>beep(); vibrate()\<close> pairs, and \<open>scheduled\<close> holds the delays of the
  pending \<^verbatim>\<open>setTimeout(announceNextInstruction, 350)\<close> callbacks. \<open>pathStep\<close> starts
  at 0 and is only ever reset to 0 or incremented, so it is a natural number; the
  comparisons with \<^verbatim>\<open>path.length - 1\<close> are made on integers.
\<close>

record nav =
  destinationNode :: string
  currentNode :: "string option"
  path :: "string list option"
  pathStep :: nat
  lastSpoken :: string
  segmentPrompted :: bool
  lastConfirmedAt :: int
  spoken :: "(string \<times> bool) list"
  cues :: nat
  scheduled :: "int list"

text \<open>IntegratedNavigation adds \<^verbatim>\<open>lastNode\<close> and the arrival lock \<^verbatim>\<open>arrived\<close>.\<close>

record nav_int = nav +
  lastNode :: "string option"
  arrived :: bool

datatype error = TypeError

text \<open>
  What a handler does: it returns, or throws with the assignments made so far kept,
  or does not return.
\<close>

datatype 's outcome = Returned 's | Threw error 's | NoReturn

fun after :: "'s outcome \<Rightarrow> 's option" where
  "after (Returned s) = Some s"
| "after (Threw e s) = Some s"
| "after NoReturn = None"

text \<open>\<^verbatim>\<open>!x\<close> for \<^verbatim>\<open>x: string | null\<close>: null and the empty string are falsy.\<close>

definition falsy :: "string option \<Rightarrow> bool" where
  "falsy x = (x = None \<or> x = Some [])"

definition speak :: "string \<Rightarrow> bool \<Rightarrow> 'a nav_scheme \<Rightarrow> 'a nav_scheme" where
  "speak msg interrupt s = s\<lparr>lastSpoken := msg, spoken := spoken s @ [(msg, interrupt)]\<rparr>"

definition beep_vibrate :: "'a nav_scheme \<Rightarrow> 'a nav_scheme" where
  "beep_vibrate s = s\<lparr>cues := cues s + 1\<rparr>"

definition handleRepeat :: "'a nav_scheme \<Rightarrow> 'a nav_scheme" where
  "handleRepeat s = (if lastSpoken s \<noteq> [] then speak (lastSpoken s) True s else s)"

section \<open>NavigationPage\<close>

definition nav_init :: "string \<Rightarrow> nav" where
  "nav_init destination =
     \<lparr>destinationNode = destination, currentNode = None, path = None, pathStep = 0,
      lastSpoken = [], segmentPrompted = False, lastConfirmedAt = 0,
      spoken = [], cues = 0, scheduled = []\<rparr>"

definition resetNav_nav :: "nav \<Rightarrow> nav" where
  "resetNav_nav s =
     speak ''Pick a destination, then scan any landmark to start.'' True
       (s\<lparr>currentNode := None, path := None, pathStep := 0,
          segmentPrompted := False, lastConfirmedAt := 0\<rparr>)"

definition setDestinationHandler_nav :: "Config \<Rightarrow> string \<Rightarrow> nav \<Rightarrow> nav outcome" where
  "setDestinationHandler_nav cfg newDest s =
     (let s1 = s\<lparr>destinationNode := newDest, currentNode := None, path := None, pathStep := 0,
                  segmentPrompted := False, lastConfirmedAt := 0\<rparr>
      in case node_label cfg newDest of
           None \<Rightarrow> Threw TypeError s1
         | Some l \<Rightarrow>
             Returned (speak (''Destination set to '' @ l @ ''. Scan any landmark to start.'') True s1))"

definition getEdgeInstruction_nav :: "Config \<Rightarrow> string \<Rightarrow> string \<Rightarrow> string" where
  "getEdgeInstruction_nav cfg frm dst =
     (case find (\<lambda>x. to x = dst) (edges_of (edges cfg) frm) of
        Some e \<Rightarrow> say e
      | None \<Rightarrow> ''Landmark confirmed. Continue forward carefully and scan again.'')"

definition announceNextInstruction_nav :: "Config \<Rightarrow> nav \<Rightarrow> nav" where
  "announceNextInstruction_nav cfg s =
     (case path s of
        None \<Rightarrow> s
      | Some p \<Rightarrow>
          if int (pathStep s) \<ge> int (length p) - 1
          then speak ''You have arrived.'' True s
          else speak (getEdgeInstruction_nav cfg (p ! pathStep s) (p ! (pathStep s + 1))) True s)"

definition movementPromptDelayMs :: int where
  "movementPromptDelayMs = 4500"

definition maybeGiveMovementPrompt_nav :: "int \<Rightarrow> nav \<Rightarrow> nav" where
  "maybeGiveMovementPrompt_nav now s =
     (if falsy (currentNode s) then s
      else if path s = None then s
      else if segmentPrompted s then s
      else if now - lastConfirmedAt s < movementPromptDelayMs then s
      else speak ''Keep moving forward carefully.'' False (s\<lparr>segmentPrompted := True\<rparr>))"

definition startRoutingFrom_nav :: "Config \<Rightarrow> int \<Rightarrow> string \<Rightarrow> nav \<Rightarrow> nav outcome" where
  "startRoutingFrom_nav cfg now nodeId s =
     (case bfsPath (edges cfg) nodeId (destinationNode s) of
        None \<Rightarrow> NoReturn
      | Some r \<Rightarrow>
          (let s1 = s\<lparr>currentNode := Some nodeId, path := r, pathStep := 0,
                       segmentPrompted := False, lastConfirmedAt := now\<rparr>
           in case r of
                None \<Rightarrow> Returned (speak ''No route found from here.'' True s1)
              | Some p \<Rightarrow>
                  (case node_label cfg nodeId of
                     None \<Rightarrow> Threw TypeError s1
                   | Some l \<Rightarrow>
                       Returned ((speak (''Starting at '' @ l @ ''.'') True s1)
                                   \<lparr>scheduled := scheduled s1 @ [350]\<rparr>))))"

definition onNodeConfirmed_nav :: "Config \<Rightarrow> int \<Rightarrow> string \<Rightarrow> nav \<Rightarrow> nav outcome" where
  "onNodeConfirmed_nav cfg now nodeId s =
     (if nodeId \<notin> ACTIVE_NODES cfg then Returned s
      else
        let s1 = beep_vibrate (s\<lparr>lastConfirmedAt := now, segmentPrompted := False\<rparr>)
        in case path s1 of
             None \<Rightarrow> startRoutingFrom_nav cfg now nodeId s1
           | Some p \<Rightarrow>
               if falsy (currentNode s1) then startRoutingFrom_nav cfg now nodeId s1
               else if int (pathStep s1) < int (length p) - 1 \<and> nodeId = p ! (pathStep s1 + 1)
               then Returned (announceNextInstruction_nav cfg
                                (s1\<lparr>pathStep := pathStep s1 + 1, currentNode := Some nodeId\<rparr>))
               else if Some nodeId \<noteq> currentNode s1
               then (case bfsPath (edges cfg) nodeId (destinationNode s1) of
                       None \<Rightarrow> NoReturn
                     | Some r \<Rightarrow>
                         (let s2 = s1\<lparr>currentNode := Some nodeId, path := r, pathStep := 0\<rparr>
                          in case r of
                               None \<Rightarrow> Returned (speak ''I cannot find a route from here.'' True s2)
                             | Some p' \<Rightarrow>
                                 (case node_label cfg nodeId of
                                    None \<Rightarrow> Threw TypeError s2
                                  | Some l \<Rightarrow>
                                      Returned ((speak (''Re routing from '' @ l @ ''.'') True s2)
                                                  \<lparr>scheduled := scheduled s2 @ [350]\<rparr>))))
               else Returned (announceNextInstruction_nav cfg s1))"

text \<open>The callback of \<^verbatim>\<open>setTimeout(announceNextInstruction, 350)\<close> running.\<close>

definition timerFired_nav :: "Config \<Rightarrow> nav \<Rightarrow> nav" where
  "timerFired_nav cfg s =
     (case scheduled s of
        [] \<Rightarrow> s
      | d # ds \<Rightarrow> announceNextInstruction_nav cfg (s\<lparr>scheduled := ds\<rparr>))"

definition onTargetFound_nav ::
  "Config \<Rightarrow> int \<Rightarrow> nat \<Rightarrow> debouncer \<times> nav \<Rightarrow> debouncer \<times> nav outcome" where
  "onTargetFound_nav cfg now targetIndex ds =
     (case map_of (indexToNode cfg) targetIndex of
        None \<Rightarrow> (fst ds, Returned (snd ds))
      | Some nodeId \<Rightarrow>
          if nodeId = [] then (fst ds, Returned (snd ds))
          else (let (ok, d') = acceptStable now nodeId (fst ds)
                in if \<not> ok then (d', Returned (snd ds))
                   else (d', onNodeConfirmed_nav cfg now nodeId (snd ds))))"

datatype event =
    Confirmed int string
  | DestinationChanged string
  | Reset
  | Repeat
  | TimerFired
  | MovementTick int bool

text \<open>
  \<open>Confirmed now nodeId\<close> is a call of \<^verbatim>\<open>onNodeConfirmed(nodeId)\<close>. Its only caller is
  \<^verbatim>\<open>onTargetFound\<close>, which returns before the call when \<^verbatim>\<open>!nodeId\<close>, so an empty
  id never reaches the handler.
\<close>

fun handle_nav :: "Config \<Rightarrow> event \<Rightarrow> nav \<Rightarrow> nav outcome" where
  "handle_nav cfg (Confirmed now nodeId) s =
     (if nodeId = [] then Returned s else onNodeConfirmed_nav cfg now nodeId s)"
| "handle_nav cfg (DestinationChanged newDest) s = setDestinationHandler_nav cfg newDest s"
| "handle_nav cfg Reset s = Returned (resetNav_nav s)"
| "handle_nav cfg Repeat s = Returned (handleRepeat s)"
| "handle_nav cfg TimerFired s = Returned (timerFired_nav cfg s)"
| "handle_nav cfg (MovementTick now speaking) s = Returned (maybeGiveMovementPrompt_nav now s)"

text \<open>
  Events are handled one after the other; an uncaught exception ends its handler only,
  and the next event finds the variables as the throw left them.
\<close>

fun run_nav :: "Config \<Rightarrow> event list \<Rightarrow> nav \<Rightarrow> nav option" where
  "run_nav cfg [] s = Some s"
| "run_nav cfg (ev # evs) s =
     (case after (handle_nav cfg ev s) of
        None \<Rightarrow> None
      | Some s' \<Rightarrow> run_nav cfg evs s')"

section \<open>IntegratedNavigation\<close>

definition int_init :: "string \<Rightarrow> nav_int" where
  "int_init destination =
     \<lparr>destinationNode = destination, currentNode = None, path = None, pathStep = 0,
      lastSpoken = [], segmentPrompted = False, lastConfirmedAt = 0,
      spoken = [], cues = 0, scheduled = [], lastNode = None, arrived = False\<rparr>"

definition finishArrival :: "string \<Rightarrow> nav_int \<Rightarrow> nav_int" where
  "finishArrival msg s =
     speak (msg @ '' Choose next destination.'') True
       (s\<lparr>arrived := True, path := None, pathStep := 0, segmentPrompted := True\<rparr>)"

definition resetNav_int :: "nav_int \<Rightarrow> nav_int" where
  "resetNav_int s =
     speak ''Pick a destination to start.'' True
       (s\<lparr>currentNode := None, lastNode := None, path := None, pathStep := 0,
          segmentPrompted := False, lastConfirmedAt := 0, arrived := False\<rparr>)"

definition setDestinationHandler_int :: "Config \<Rightarrow> string \<Rightarrow> nav_int \<Rightarrow> nav_int outcome" where
  "setDestinationHandler_int cfg newDest s =
     (let s1 = s\<lparr>destinationNode := newDest, currentNode := None, lastNode := None, path := None,
                  pathStep := 0, segmentPrompted := False, lastConfirmedAt := 0, arrived := False\<rparr>
      in case node_label cfg newDest of
           None \<Rightarrow> Threw TypeError s1
         | Some l \<Rightarrow>
             Returned (speak (''Destination set to '' @ l @ ''. Scan the room so we can locate you.'')
                         True s1))"

definition getEdgeInstruction_int :: "Config \<Rightarrow> string \<Rightarrow> string \<Rightarrow> string" where
  "getEdgeInstruction_int cfg frm dst =
     (case find (\<lambda>x. to x = dst) (edges_of (edges cfg) frm) of
        Some e \<Rightarrow> say e
      | None \<Rightarrow> ''Keep moving forward with caution.'')"

definition announceNextInstruction_int :: "Config \<Rightarrow> nav_int \<Rightarrow> nav_int outcome" where
  "announceNextInstruction_int cfg s =
     (case path s of
        None \<Rightarrow> Returned s
      | Some p \<Rightarrow>
          if falsy (currentNode s) then Returned s
          else if int (pathStep s) \<ge> int (length p) - 1
          then (case node_label cfg (destinationNode s) of
                  None \<Rightarrow> Threw TypeError s
                | Some l \<Rightarrow> Returned (finishArrival (''You have arrived at '' @ l @ ''.'') s))
          else (let frm = p ! pathStep s;
                    dst = p ! (pathStep s + 1);
                    direction = getEdgeInstruction_int cfg frm dst
                in case node_label cfg frm of
                     None \<Rightarrow> Threw TypeError s
                   | Some l \<Rightarrow> Returned (speak (''You are at '' @ l @ ''. '' @ direction) True s)))"

text \<open>\<open>speaking\<close> is the reading of \<^verbatim>\<open>window.speechSynthesis.speaking\<close>.\<close>

definition maybeGiveMovementPrompt_int :: "int \<Rightarrow> bool \<Rightarrow> nav_int \<Rightarrow> nav_int" where
  "maybeGiveMovementPrompt_int now speaking s =
     (if arrived s then s
      else if falsy (currentNode s) then s
      else if path s = None then s
      else if segmentPrompted s then s
      else if now - lastConfirmedAt s < movementPromptDelayMs then s
      else if speaking then s
      else speak ''Keep moving forward with caution.'' False (s\<lparr>segmentPrompted := True\<rparr>))"

definition startRoutingFrom_int :: "Config \<Rightarrow> int \<Rightarrow> string \<Rightarrow> nav_int \<Rightarrow> nav_int outcome" where
  "startRoutingFrom_int cfg now nodeId s =
     (case bfsPath (edges cfg) nodeId (destinationNode s) of
        None \<Rightarrow> NoReturn
      | Some r \<Rightarrow>
          (let s1 = s\<lparr>lastNode := currentNode s, currentNode := Some nodeId, path := r,
                       pathStep := 0, segmentPrompted := False, lastConfirmedAt := now\<rparr>
           in case r of
                None \<Rightarrow> Returned (speak ''No route found from here.'' True s1)
              | Some p \<Rightarrow> announceNextInstruction_int cfg s1))"

definition bathroomArrivalMessage :: "Config \<Rightarrow> string option \<Rightarrow> nav_int \<Rightarrow> nav_int outcome" where
  "bathroomArrivalMessage cfg cameFrom s =
     (let turn = (if cameFrom = Some ''elevator'' then ''Go left.'' else ''Go right.'')
      in case node_label cfg ''washroom'' of
           None \<Rightarrow> Threw TypeError s
         | Some l \<Rightarrow>
             Returned (finishArrival
               (''You are at '' @ l @ ''. '' @ turn @
                '' The door is in front of you. Walk with caution and open the door to enter.'') s))"

definition onNodeConfirmed_int :: "Config \<Rightarrow> int \<Rightarrow> string \<Rightarrow> nav_int \<Rightarrow> nav_int outcome" where
  "onNodeConfirmed_int cfg now nodeId s =
     (if nodeId \<notin> ACTIVE_NODES cfg then Returned s
      else if arrived s then Returned s
      else
        let cameFrom = currentNode s;
            s1 = beep_vibrate (s\<lparr>lastConfirmedAt := now, segmentPrompted := False\<rparr>)
        in case path s1 of
             None \<Rightarrow> startRoutingFrom_int cfg now nodeId s1
           | Some p \<Rightarrow>
               if falsy (currentNode s1) then startRoutingFrom_int cfg now nodeId s1
               else if int (pathStep s1) < int (length p) - 1 \<and> nodeId = p ! (pathStep s1 + 1)
               then (let s2 = s1\<lparr>pathStep := pathStep s1 + 1, lastNode := cameFrom,
                                  currentNode := Some nodeId\<rparr>
                     in if destinationNode s2 = ''washroom'' \<and> nodeId = ''washroom''
                        then bathroomArrivalMessage cfg (lastNode s2) s2
                        else announceNextInstruction_int cfg s2)
               else if Some nodeId \<noteq> currentNode s1
               then (case bfsPath (edges cfg) nodeId (destinationNode s1) of
                       None \<Rightarrow> NoReturn
                     | Some r \<Rightarrow>
                         (let s2 = s1\<lparr>lastNode := cameFrom, currentNode := Some nodeId,
                                      path := r, pathStep := 0\<rparr>
                          in case r of
                               None \<Rightarrow> Returned (speak ''I cannot find a route from here.'' True s2)
                             | Some p' \<Rightarrow>
                                 if destinationNode s2 = ''washroom'' \<and> nodeId = ''washroom''
                                 then bathroomArrivalMessage cfg (lastNode s2) s2
                                 else (case node_label cfg nodeId of
                                         None \<Rightarrow> Threw TypeError s2
                                       | Some l \<Rightarrow>
                                           Returned ((speak (''You are at '' @ l @ ''. Re routing.'') True s2)
                                                       \<lparr>scheduled := scheduled s2 @ [350]\<rparr>))))
               else announceNextInstruction_int cfg s1)"

definition timerFired_int :: "Config \<Rightarrow> nav_int \<Rightarrow> nav_int outcome" where
  "timerFired_int cfg s =
     (case scheduled s of
        [] \<Rightarrow> Returned s
      | d # ds \<Rightarrow> announceNextInstruction_int cfg (s\<lparr>scheduled := ds\<rparr>))"

definition onTargetFound_int ::
  "Config \<Rightarrow> int \<Rightarrow> nat \<Rightarrow> debouncer \<times> nav_int \<Rightarrow> debouncer \<times> nav_int outcome" where
  "onTargetFound_int cfg now targetIndex ds =
     (case map_of (indexToNode cfg) targetIndex of
        None \<Rightarrow> (fst ds, Returned (snd ds))
      | Some nodeId \<Rightarrow>
          if nodeId = [] then (fst ds, Returned (snd ds))
          else (let (ok, d') = acceptStable now nodeId (fst ds)
                in if \<not> ok then (d', Returned (snd ds))
                   else (d', onNodeConfirmed_int cfg now nodeId (snd ds))))"

fun handle_int :: "Config \<Rightarrow> event \<Rightarrow> nav_int \<Rightarrow> nav_int outcome" where
  "handle_int cfg (Confirmed now nodeId) s =
     (if nodeId = [] then Returned s else onNodeConfirmed_int cfg now nodeId s)"
| "handle_int cfg (DestinationChanged newDest) s = setDestinationHandler_int cfg newDest s"
| "handle_int cfg Reset s = Returned (resetNav_int s)"
| "handle_int cfg Repeat s = Returned (handleRepeat s)"
| "handle_int cfg TimerFired s = timerFired_int cfg s"
| "handle_int cfg (MovementTick now speaking) s =
     Returned (maybeGiveMovementPrompt_int now speaking s)"

fun run_int :: "Config \<Rightarrow> event list \<Rightarrow> nav_int \<Rightarrow> nav_int option" where
  "run_int cfg [] s = Some s"
| "run_int cfg (ev # evs) s =
     (case after (handle_int cfg ev s) of
        None \<Rightarrow> None
      | Some s' \<Rightarrow> run_int cfg evs s')"

section \<open>The tables of the two components\<close>

definition edges_nav :: graph where
  "edges_nav =
    [(''two'', [\<lparr>to = ''washroom'',
                 say = ''Landmark confirmed: 2 sign. Take a right to reach the washroom.''\<rparr>]),
     (''washroom'',
        [\<lparr>to = ''caution'',
          say = ''Landmark confirmed: washroom. Go straight to reach the caution sign.''\<rparr>,
         \<lparr>to = ''two'',
          say = ''Landmark confirmed: washroom. Go straight to reach the 2 sign.''\<rparr>]),
     (''caution'',
        [\<lparr>to = ''door'',
          say = ''Landmark confirmed: caution sign. Take a right to reach the door.''\<rparr>,
         \<lparr>to = ''washroom'',
          say = ''Landmark confirmed: caution sign. Take a left to reach the washroom.''\<rparr>]),
     (''door'',
        [\<lparr>to = ''caution'',
          say = ''Landmark confirmed: door. Turn around, then go straight to reach the caution sign.''\<rparr>])]"

definition config_nav :: Config where
  "config_nav =
     \<lparr>nodes = [(''two'', \<lparr>label = ''2 sign''\<rparr>), (''washroom'', \<lparr>label = ''Washroom''\<rparr>),
               (''couch'', \<lparr>label = ''Couch''\<rparr>), (''painting'', \<lparr>label = ''Painting''\<rparr>),
               (''caution'', \<lparr>label = ''Caution sign''\<rparr>), (''door'', \<lparr>label = ''Door''\<rparr>)],
      indexToNode = [(0, ''two''), (1, ''washroom''), (2, ''couch''), (3, ''painting''),
                     (4, ''caution''), (5, ''door'')],
      ACTIVE_NODES = {''two'', ''washroom'', ''caution'', ''door''},
      edges = edges_nav\<rparr>"

definition edges_int :: graph where
  "edges_int =
    [(''elevator'', [\<lparr>to = ''washroom'', say = ''Go right and walk straight.''\<rparr>]),
     (''washroom'', [\<lparr>to = ''mainhall'', say = ''Walk straight.''\<rparr>,
                     \<lparr>to = ''elevator'', say = ''Walk straight.''\<rparr>]),
     (''mainhall'', [\<lparr>to = ''exitdoor'', say = ''Go right and walk straight.''\<rparr>,
                     \<lparr>to = ''washroom'', say = ''Take a left then walk straight.''\<rparr>]),
     (''exitdoor'', [\<lparr>to = ''mainhall'', say = ''Do a 180, then walk straight.''\<rparr>])]"

definition config_int :: Config where
  "config_int =
     \<lparr>nodes = [(''elevator'', \<lparr>label = ''Elevator''\<rparr>), (''washroom'', \<lparr>label = ''Bathroom''\<rparr>),
               (''mainhall'', \<lparr>label = ''Main hall''\<rparr>), (''exitdoor'', \<lparr>label = ''Exit door''\<rparr>)],
      indexToNode = [(0, ''elevator''), (1, ''washroom''), (2, ''mainhall''), (3, ''exitdoor''),
                     (4, ''exitdoor'')],
      ACTIVE_NODES = {''elevator'', ''washroom'', ''mainhall'', ''exitdoor''},
      edges = edges_int\<rparr>"

text \<open>
  The reference graph of the specification's scenarios: \<open>A \<rightarrow> B\<close> ("turn right") and
  \<open>B \<rightarrow> C\<close> ("go straight"). No route leads back from \<open>C\<close>.
\<close>

definition config_abc :: Config where
  "config_abc =
     \<lparr>nodes = [(''A'', \<lparr>label = ''A''\<rparr>), (''B'', \<lparr>label = ''B''\<rparr>), (''C'', \<lparr>label = ''C''\<rparr>)],
      indexToNode = [(0, ''A''), (1, ''B''), (2, ''C'')],
      ACTIVE_NODES = {''A'', ''B'', ''C''},
      edges = [(''A'', [\<lparr>to = ''B'', say = ''turn right''\<rparr>]),
               (''B'', [\<lparr>to = ''C'', say = ''go straight''\<rparr>])]\<rparr>"

section \<open>Voice commands\<close>

text \<open>
  The \<^verbatim>\<open>recognition.onresult\<close> handlers of IntegratedNavigation and of VoiceController
  declare the same \<^verbatim>\<open>keywordMap\<close>. None of its keys is an integer index, so
  \<^verbatim>\<open>Object.entries\<close> yields them in declaration order.

  A character is a UTF-16 code unit below 256, so a string is a JavaScript string
  over Latin-1; an utterance with another code unit is outside the model. On these
  strings \<^verbatim>\<open>toLowerCase\<close> maps \<open>A\<close>--\<open>Z\<close> and the capital letters U+00C0--U+00DE
  (without the multiplication sign U+00D7) to the letter 32 places further on and leaves
  every other character, and \<^verbatim>\<open>trim\<close> strips the white space and line terminators
  U+0009--U+000D, U+0020 and U+00A0.
\<close>

definition keywordMap :: "(string \<times> string) list" where
  "keywordMap =
     [(''washroom'', ''washroom''), (''wash room'', ''washroom''), (''bathroom'', ''washroom''),
      (''bath room'', ''washroom''), (''restroom'', ''washroom''), (''elevator'', ''elevator''),
      (''main hall'', ''mainhall''), (''mainhall'', ''mainhall''), (''exit door'', ''exitdoor''),
      (''exitdoor'', ''exitdoor''), (''exit'', ''exitdoor'')]"

definition upper_letters :: string where
  "upper_letters =
     ''ABCDEFGHIJKLMNOPQRSTUVWXYZ'' @
     [CHR 0xC0, CHR 0xC1, CHR 0xC2, CHR 0xC3, CHR 0xC4, CHR 0xC5, CHR 0xC6, CHR 0xC7,
      CHR 0xC8, CHR 0xC9, CHR 0xCA, CHR 0xCB, CHR 0xCC, CHR 0xCD, CHR 0xCE, CHR 0xCF,
      CHR 0xD0, CHR 0xD1, CHR 0xD2, CHR 0xD3, CHR 0xD4, CHR 0xD5, CHR 0xD6,
      CHR 0xD8, CHR 0xD9, CHR 0xDA, CHR 0xDB, CHR 0xDC, CHR 0xDD, CHR 0xDE]"

definition lower_letters :: string where
  "lower_letters =
     ''abcdefghijklmnopqrstuvwxyz'' @
     [CHR 0xE0, CHR 0xE1, CHR 0xE2, CHR 0xE3, CHR 0xE4, CHR 0xE5, CHR 0xE6, CHR 0xE7,
      CHR 0xE8, CHR 0xE9, CHR 0xEA, CHR 0xEB, CHR 0xEC, CHR 0xED, CHR 0xEE, CHR 0xEF,
      CHR 0xF0, CHR 0xF1, CHR 0xF2, CHR 0xF3, CHR 0xF4, CHR 0xF5, CHR 0xF6,
      CHR 0xF8, CHR 0xF9, CHR 0xFA, CHR 0xFB, CHR 0xFC, CHR 0xFD, CHR 0xFE]"

definition lower_char :: "char \<Rightarrow> char" where
  "lower_char c =
     (case map_of (zip upper_letters lower_letters) c of
        Some l \<Rightarrow> l
      | None \<Rightarrow> c)"

definition toLowerCase :: "string \<Rightarrow> string" where
  "toLowerCase t = map lower_char t"

definition is_space :: "char \<Rightarrow> bool" where
  "is_space c =
     (c \<in> set [CHR 0x09, CHR 0x0A, CHR 0x0B, CHR 0x0C, CHR 0x0D, CHR 0x20, CHR 0xA0])"

definition trim :: "string \<Rightarrow> string" where
  "trim t = rev (dropWhile is_space (rev (dropWhile is_space t)))"

text \<open>
  \<^verbatim>\<open>transcript.includes(keyword)\<close>, searching from the left (\<open>includes\<close> is a keyword
  of the theory language, hence the suffix).
\<close>

fun includes_str :: "string \<Rightarrow> string \<Rightarrow> bool" where
  "includes_str [] k = (k = [])"
| "includes_str (c # cs) k = (take (length k) (c # cs) = k \<or> includes_str cs k)"

text \<open>
  \<^verbatim>\<open>for (const [keyword, dest] of Object.entries(keywordMap))
    if (transcript.includes(keyword)) { matchedDestination = dest; break; }\<close>
\<close>

fun matchKeyword :: "(string \<times> string) list \<Rightarrow> string \<Rightarrow> string option" where
  "matchKeyword [] transcript = None"
| "matchKeyword ((keyword, dest) # rest) transcript =
     (if includes_str transcript keyword then Some dest else matchKeyword rest transcript)"

definition matchedDestination :: "string \<Rightarrow> string option" where
  "matchedDestination rawTranscript = matchKeyword keywordMap (toLowerCase rawTranscript)"

definition matchedId :: "string \<Rightarrow> string option" where
  "matchedId rawTranscript = matchKeyword keywordMap (trim (toLowerCase rawTranscript))"

text \<open>
  What a handler does with the match: the value passed to \<^verbatim>\<open>setDestination\<close> (or to
  \<^verbatim>\<open>setMatchedCheckpoint\<close>), the status text and the spoken text, each \<open>None\<close> when
  the call is not made.
\<close>

record voice_effects =
  selected :: "string option"
  statusText :: "string option"
  utterance :: "string option"

definition nodeLabels :: "(string \<times> string) list" where
  "nodeLabels = [(''washroom'', ''Bathroom''), (''elevator'', ''Elevator''),
                 (''mainhall'', ''Main hall''), (''exitdoor'', ''Exit door'')]"

definition onresult_int :: "string \<Rightarrow> string \<Rightarrow> voice_effects" where
  "onresult_int destination rawTranscript =
     (case matchedDestination rawTranscript of
        None \<Rightarrow> \<lparr>selected = None, statusText = None, utterance = None\<rparr>
      | Some m \<Rightarrow>
          if m \<noteq> [] \<and> m \<noteq> destination
          then (let checkpointName = (case map_of nodeLabels m of
                                        None \<Rightarrow> m
                                      | Some n \<Rightarrow> if n = [] then m else n)
                in \<lparr>selected = Some m,
                    statusText = Some (''Destination set to '' @ checkpointName @ '' via voice command.''),
                    utterance = Some (''Destination set to '' @ checkpointName @ ''.'')\<rparr>)
          else \<lparr>selected = None, statusText = None, utterance = None\<rparr>)"

definition checkpoints :: "(string \<times> string) list" where
  "checkpoints = [(''washroom'', ''Washroom''), (''elevator'', ''Elevator''),
                  (''mainhall'', ''Main Hall''), (''exitdoor'', ''Exit Door'')]"

definition onresult_vc :: "string \<Rightarrow> voice_effects" where
  "onresult_vc rawTranscript =
     (case matchedId rawTranscript of
        None \<Rightarrow>
          \<lparr>selected = None,
           statusText = Some (''Heard: '' @ [CHR 0x22] @ trim (toLowerCase rawTranscript) @ [CHR 0x22] @
                              '' - No checkpoint matched''),
           utterance = None\<rparr>
      | Some m \<Rightarrow>
          if m = []
          then \<lparr>selected = None,
                statusText = Some (''Heard: '' @ [CHR 0x22] @ trim (toLowerCase rawTranscript) @ [CHR 0x22] @
                              '' - No checkpoint matched''),
                utterance = None\<rparr>
          else (case map_of checkpoints m of
                  None \<Rightarrow> \<lparr>selected = None, statusText = None, utterance = None\<rparr>
                | Some name \<Rightarrow>
                    \<lparr>selected = Some name,
                     statusText = Some (''Checkpoint detected: '' @ name),
                     utterance = Some (''Checkpoint detected: '' @ name)\<rparr>))"

section \<open>Correctness of the path planner\<close>

text \<open>
  The directed edge relation of a graph, walks along it, and what it is for a node
  sequence to be a shortest route from \<open>start\<close> to \<open>goal\<close>. The length of a route is its
  number of nodes.
\<close>

definition edge_rel :: "graph \<Rightarrow> (string \<times> string) set" where
  "edge_rel g = {(u, v). v \<in> to ` set (edges_of g u)}"

fun walk :: "graph \<Rightarrow> string list \<Rightarrow> bool" where
  "walk g [] = False"
| "walk g [x] = True"
| "walk g (x # y # zs) = ((x, y) \<in> edge_rel g \<and> walk g (y # zs))"

definition route_from_to :: "graph \<Rightarrow> string \<Rightarrow> string \<Rightarrow> string list \<Rightarrow> bool" where
  "route_from_to g start goal p = (walk g p \<and> hd p = start \<and> last p = goal)"

definition shortest_route :: "graph \<Rightarrow> string \<Rightarrow> string \<Rightarrow> string list \<Rightarrow> bool" where
  "shortest_route g start goal p =
     (route_from_to g start goal p \<and>
      (\<forall>p'. route_from_to g start goal p' \<longrightarrow> length p \<le> length p'))"

text \<open>
  The invariant of the search while the edges \<open>es\<close> of \<open>cur\<close> remain to be scanned, for a
  level function \<open>lev\<close> that the program does not store: the predecessor table is a tree
  of level-increasing edges rooted at \<open>start\<close>; the queue is sorted by level, within one
  level of \<open>cur\<close>; every seen node outside the queue, except \<open>cur\<close>, has all its successors
  seen; and an edge between seen nodes raises the level by at most one.
\<close>

definition tree_inv :: "graph \<Rightarrow> string \<Rightarrow> (string \<Rightarrow> nat) \<Rightarrow> (string \<rightharpoonup> string) \<Rightarrow> string set \<Rightarrow> bool" where
  "tree_inv g start lev prev seen =
     (start \<in> seen \<and> lev start = 0 \<and>
      (\<forall>v\<in>seen. v \<noteq> start \<longrightarrow>
         (\<exists>u\<in>seen. prev v = Some u \<and> (u, v) \<in> edge_rel g \<and> lev v = Suc (lev u))))"

definition queue_inv :: "(string \<Rightarrow> nat) \<Rightarrow> string \<Rightarrow> string list \<Rightarrow> string set \<Rightarrow> bool" where
  "queue_inv lev cur q seen =
     (cur \<in> seen \<and> set q \<subseteq> seen \<and> sorted (map lev q) \<and>
      (\<forall>v\<in>set q. lev cur \<le> lev v) \<and> (\<forall>v\<in>seen. lev v \<le> Suc (lev cur)))"

definition closed_inv :: "graph \<Rightarrow> string \<Rightarrow> Edge list \<Rightarrow> string list \<Rightarrow> string set \<Rightarrow> bool" where
  "closed_inv g cur es q seen =
     ((\<forall>u\<in>seen. u \<notin> set q \<longrightarrow> u \<noteq> cur \<longrightarrow> (\<forall>v. (u, v) \<in> edge_rel g \<longrightarrow> v \<in> seen)) \<and>
      (\<forall>v. (cur, v) \<in> edge_rel g \<longrightarrow> v \<in> seen \<or> v \<in> to ` set es) \<and>
      (\<forall>e\<in>set es. (cur, to e) \<in> edge_rel g))"

definition lev_inv :: "graph \<Rightarrow> (string \<Rightarrow> nat) \<Rightarrow> string set \<Rightarrow> bool" where
  "lev_inv g lev seen = (\<forall>v\<in>seen. \<forall>w\<in>seen. (v, w) \<in> edge_rel g \<longrightarrow> lev w \<le> Suc (lev v))"

definition bfs_inv ::
  "graph \<Rightarrow> string \<Rightarrow> string \<Rightarrow> (string \<Rightarrow> nat) \<Rightarrow> string \<Rightarrow> Edge list \<Rightarrow> string list
     \<Rightarrow> (string \<rightharpoonup> string) \<Rightarrow> string set \<Rightarrow> bool" where
  "bfs_inv g start goal lev cur es q prev seen =
     (tree_inv g start lev prev seen \<and> goal \<notin> seen \<and> queue_inv lev cur q seen \<and>
      closed_inv g cur es q seen \<and> lev_inv g lev seen)"

lemma tree_add:
  assumes "tree_inv g start lev prev seen" "cur \<in> seen" "nxt \<notin> seen" "(cur, nxt) \<in> edge_rel g"
  shows "tree_inv g start (lev(nxt := Suc (lev cur))) (prev(nxt \<mapsto> cur)) (insert nxt seen)"
  unfolding tree_inv_def
proof (intro conjI ballI impI)
  show "start \<in> insert nxt seen" using assms by (simp add: tree_inv_def)
  show "(lev(nxt := Suc (lev cur))) start = 0" using assms by (auto simp: tree_inv_def)
next
  fix v assume v: "v \<in> insert nxt seen" "v \<noteq> start"
  show "\<exists>u\<in>insert nxt seen. (prev(nxt \<mapsto> cur)) v = Some u \<and> (u, v) \<in> edge_rel g \<and>
          (lev(nxt := Suc (lev cur))) v = Suc ((lev(nxt := Suc (lev cur))) u)"
  proof (cases "v = nxt")
    case True
    with assms show ?thesis by (intro bexI[of _ cur]) auto
  next
    case False
    with v assms obtain u where "u \<in> seen" "prev v = Some u" "(u, v) \<in> edge_rel g" "lev v = Suc (lev u)"
      unfolding tree_inv_def by blast
    with False assms show ?thesis by (intro bexI[of _ u]) auto
  qed
qed

lemma queue_add:
  assumes "queue_inv lev cur q seen" "nxt \<notin> seen"
  shows "queue_inv (lev(nxt := Suc (lev cur))) cur (q @ [nxt]) (insert nxt seen)"
proof -
  define l where "l = lev(nxt := Suc (lev cur))"
  have ln: "l nxt = Suc (lev cur)" and lo: "\<And>x. x \<noteq> nxt \<Longrightarrow> l x = lev x"
    by (simp_all add: l_def)
  from assms have nq: "nxt \<notin> set q" and nc: "nxt \<noteq> cur" by (auto simp: queue_inv_def)
  from nq lo have m: "map l q = map lev q" by (induction q) auto
  have s: "sorted (map l q)"
    unfolding m using assms by (simp add: queue_inv_def)
  have b: "\<forall>x\<in>set q. l x \<le> l nxt"
    using assms nq lo ln unfolding queue_inv_def by (metis subsetD)
  from s b have "sorted (map l (q @ [nxt]))"
    by (simp add: sorted_append)
  moreover have "\<forall>v\<in>set (q @ [nxt]). l cur \<le> l v"
    using assms nc nq lo ln unfolding queue_inv_def
    by (metis Suc_leD le_refl rotate1.simps(2) set_ConsD set_rotate1)
  moreover have "\<forall>v\<in>insert nxt seen. l v \<le> Suc (l cur)"
    using assms nc lo ln unfolding queue_inv_def by (metis insertE le_refl)
  moreover have "cur \<in> insert nxt seen" "set (q @ [nxt]) \<subseteq> insert nxt seen"
    using assms by (auto simp: queue_inv_def)
  ultimately show ?thesis unfolding queue_inv_def l_def by blast
qed

lemma closed_skip:
  assumes "closed_inv g cur (e # es) q seen" "to e \<in> seen"
  shows "closed_inv g cur es q seen"
  using assms unfolding closed_inv_def by auto

lemma closed_add:
  assumes "closed_inv g cur (e # es) q seen"
  shows "closed_inv g cur es (q @ [to e]) (insert (to e) seen)"
  using assms unfolding closed_inv_def by auto

lemma lev_add:
  assumes "lev_inv g lev seen" "queue_inv lev cur q seen" "closed_inv g cur es q seen" "nxt \<notin> seen"
  shows "lev_inv g (lev(nxt := Suc (lev cur))) (insert nxt seen)"
  unfolding lev_inv_def
proof (intro ballI impI)
  fix v w assume vw: "v \<in> insert nxt seen" "w \<in> insert nxt seen" "(v, w) \<in> edge_rel g"
  let ?l = "lev(nxt := Suc (lev cur))"
  show "?l w \<le> Suc (?l v)"
  proof (cases "w = nxt")
    case wn: True
    show ?thesis
    proof (cases "v = nxt")
      case True with wn show ?thesis by simp
    next
      case False
      with vw have vs: "v \<in> seen" by simp
      have "v \<in> set q \<or> v = cur"
        using assms(3,4) vs vw(3) wn unfolding closed_inv_def by blast
      then have "lev cur \<le> lev v" using assms(2) by (auto simp: queue_inv_def)
      with wn False show ?thesis by simp
    qed
  next
    case wo: False
    with vw have ws: "w \<in> seen" by simp
    show ?thesis
    proof (cases "v = nxt")
      case True
      from ws assms(2) have "lev w \<le> Suc (lev cur)" by (auto simp: queue_inv_def)
      with True wo show ?thesis by simp
    next
      case False
      with vw have "v \<in> seen" by simp
      with ws vw(3) assms(1) have "lev w \<le> Suc (lev v)" by (auto simp: lev_inv_def)
      with False wo show ?thesis by simp
    qed
  qed
qed

lemma walk_lower_bound:
  assumes "queue_inv lev cur q seen" "closed_inv g cur es q seen" "lev_inv g lev seen"
  shows "walk g p \<Longrightarrow> hd p \<in> seen \<Longrightarrow> last p \<notin> seen \<Longrightarrow> lev cur + 2 \<le> lev (hd p) + length p"
proof (induction p rule: induct_list012)
  case 1
  then show ?case by simp
next
  case (2 x)
  then show ?case by simp
next
  case (3 x y zs)
  show ?case
  proof (cases "y \<in> seen")
    case True
    with 3 have "lev cur + 2 \<le> lev y + length (y # zs)" by simp
    moreover have "lev y \<le> Suc (lev x)" using True 3 assms(3) by (auto simp: lev_inv_def)
    ultimately show ?thesis by simp
  next
    case False
    have "x \<in> set q \<or> x = cur"
      using assms(2) False 3 unfolding closed_inv_def by auto
    then have "lev cur \<le> lev x" using assms(1) by (auto simp: queue_inv_def)
    then show ?thesis by simp
  qed
qed

lemma walk_snoc: "walk g (xs @ [u]) \<Longrightarrow> (u, v) \<in> edge_rel g \<Longrightarrow> walk g (xs @ [u, v])"
  by (induction g xs rule: walk.induct) auto

lemma walk_back_tree:
  assumes "tree_inv g start lev prev seen"
  shows "v \<in> seen \<Longrightarrow> lev v = n \<Longrightarrow>
    \<exists>c. walk_back prev start v acc = Some (c @ rev acc) \<and> walk g (c @ [v]) \<and>
        hd (c @ [v]) = start \<and> map lev (c @ [v]) = [0..<Suc n]"
proof (induction n arbitrary: v acc)
  case 0
  with assms have "v = start" unfolding tree_inv_def by fastforce
  then have "walk_back prev start v acc = Some ([] @ rev acc)"
    by (simp add: walk_back.simps)
  moreover have "walk g ([] @ [v])" "hd ([] @ [v]) = start" "map lev ([] @ [v]) = [0..<Suc 0]"
    using \<open>v = start\<close> 0 by auto
  ultimately show ?case by blast
next
  case (Suc n)
  with assms have vs: "v \<noteq> start" unfolding tree_inv_def by auto
  with assms Suc.prems obtain u where u: "u \<in> seen" "prev v = Some u" "(u, v) \<in> edge_rel g" "lev v = Suc (lev u)"
    unfolding tree_inv_def by blast
  with Suc.prems have "lev u = n" by simp
  from Suc.IH[OF u(1) this, of "acc @ [u]"] obtain c where c:
    "walk_back prev start u (acc @ [u]) = Some (c @ rev (acc @ [u]))" "walk g (c @ [u])"
    "hd (c @ [u]) = start" "map lev (c @ [u]) = [0..<Suc n]"
    by blast
  have "walk_back prev start v acc = Some ((c @ [u]) @ rev acc)"
    using vs u(2) c(1) by (subst walk_back.simps) simp
  moreover have "walk g ((c @ [u]) @ [v])" using walk_snoc[OF c(2) u(3)] by simp
  moreover have "hd ((c @ [u]) @ [v]) = start" using c(3) by (cases c) auto
  moreover have "map lev ((c @ [u]) @ [v]) = [0..<Suc (Suc n)]"
    using c(4) Suc.prems(2) by simp
  ultimately show ?case by blast
qed


lemma scan_edges_inv:
  assumes "start \<noteq> goal"
  shows "bfs_inv g start goal lev cur es q prev seen \<Longrightarrow>
    (case scan_edges start goal cur es q prev seen of
       Return r \<Rightarrow> \<exists>p. r = Some p \<and> shortest_route g start goal p \<and> distinct p
     | Continue q' prev' seen' \<Rightarrow> \<exists>lev'. bfs_inv g start goal lev' cur [] q' prev' seen')"
proof (induction es arbitrary: lev q prev seen)
  case Nil
  then show ?case by auto
next
  case (Cons e es)
  from Cons.prems have
    t: "tree_inv g start lev prev seen" and gs: "goal \<notin> seen" and
    qi: "queue_inv lev cur q seen" and ci: "closed_inv g cur (e # es) q seen" and
    li: "lev_inv g lev seen"
    by (simp_all add: bfs_inv_def)
  show ?case
  proof (cases "to e \<in> seen")
    case True
    from closed_skip[OF ci True] t gs qi li
    have "bfs_inv g start goal lev cur es q prev seen" by (simp add: bfs_inv_def)
    note ih = Cons.IH[OF this]
    have "scan_edges start goal cur (e # es) q prev seen =
          scan_edges start goal cur es q prev seen"
      using True by (simp add: Let_def)
    then show ?thesis using ih by (simp only:)
  next
    case False
    let ?nxt = "to e"
    let ?lev = "lev(?nxt := Suc (lev cur))"
    let ?prev = "prev(?nxt \<mapsto> cur)"
    let ?seen = "insert ?nxt seen"
    have cs: "cur \<in> seen" using qi by (simp add: queue_inv_def)
    have ed: "(cur, ?nxt) \<in> edge_rel g" using ci by (simp add: closed_inv_def)
    have t': "tree_inv g start ?lev ?prev ?seen" by (rule tree_add[OF t cs False ed])
    show ?thesis
    proof (cases "?nxt = goal")
      case ng: False
      have "bfs_inv g start goal ?lev cur es (q @ [?nxt]) ?prev ?seen"
        unfolding bfs_inv_def
        using t' gs ng queue_add[OF qi False] closed_add[OF ci] lev_add[OF li qi ci False]
        by simp
      note ih = Cons.IH[OF this]
      have "scan_edges start goal cur (e # es) q prev seen =
            scan_edges start goal cur es (q @ [?nxt]) ?prev ?seen"
        using False ng by (simp add: Let_def)
      then show ?thesis using ih by (simp only:)
    next
      case True
      have "?nxt \<in> ?seen" by simp
      from walk_back_tree[OF t' this refl, of "[goal]"] obtain c where c:
        "walk_back ?prev start ?nxt [goal] = Some (c @ rev [goal])" "walk g (c @ [?nxt])"
        "hd (c @ [?nxt]) = start" "map ?lev (c @ [?nxt]) = [0..<Suc (?lev ?nxt)]"
        by blast
      let ?p = "c @ [goal]"
      have r: "route_from_to g start goal ?p" using c True by (simp add: route_from_to_def)
      have len: "length ?p = lev cur + 2"
      proof -
        have "length (map ?lev (c @ [?nxt])) = length [0..<Suc (?lev ?nxt)]" using c(4) by simp
        then show ?thesis by simp
      qed
      have "distinct (map ?lev (c @ [?nxt]))" unfolding c(4) by simp
      then have d: "distinct ?p" using True by (metis distinct_map)
      have m: "length ?p \<le> length p'" if "route_from_to g start goal p'" for p'
      proof -
        from that have w: "walk g p'" "hd p' = start" "last p' = goal"
          by (simp_all add: route_from_to_def)
        have "hd p' \<in> seen" using w(2) t by (simp add: tree_inv_def)
        moreover have "last p' \<notin> seen" using w(3) gs by simp
        ultimately have "lev cur + 2 \<le> lev (hd p') + length p'"
          using walk_lower_bound[OF qi ci li w(1)] by simp
        moreover have "lev (hd p') = 0" using w(2) t by (simp add: tree_inv_def)
        ultimately show ?thesis using len by simp
      qed
      have "shortest_route g start goal ?p" using r m by (simp add: shortest_route_def)
      moreover have "scan_edges start goal cur (e # es) q prev seen = Return (Some ?p)"
        using False True c(1) by (simp add: Let_def)
      ultimately show ?thesis using d by simp
    qed
  qed
qed

definition bfs_outer_inv ::
  "graph \<Rightarrow> string \<Rightarrow> string \<Rightarrow> string list \<Rightarrow> (string \<rightharpoonup> string) \<Rightarrow> string set \<Rightarrow> bool" where
  "bfs_outer_inv g start goal q0 prev seen =
     (case q0 of
        [] \<Rightarrow> start \<in> seen \<and> goal \<notin> seen \<and> (\<forall>u\<in>seen. \<forall>v. (u, v) \<in> edge_rel g \<longrightarrow> v \<in> seen)
      | cur # q \<Rightarrow> \<exists>lev. bfs_inv g start goal lev cur (edges_of g cur) q prev seen)"

lemma scan_done_outer:
  assumes "bfs_inv g start goal lev cur [] q prev seen"
  shows "bfs_outer_inv g start goal q prev seen"
proof -
  from assms have
    t: "tree_inv g start lev prev seen" and gs: "goal \<notin> seen" and
    qi: "queue_inv lev cur q seen" and ci: "closed_inv g cur [] q seen" and
    li: "lev_inv g lev seen"
    by (simp_all add: bfs_inv_def)
  show ?thesis
  proof (cases q)
    case Nil
    have "\<forall>u\<in>seen. \<forall>v. (u, v) \<in> edge_rel g \<longrightarrow> v \<in> seen"
      using ci Nil unfolding closed_inv_def by auto
    with t gs Nil show ?thesis by (simp add: bfs_outer_inv_def tree_inv_def)
  next
    case (Cons c q')
    have lc: "lev cur \<le> lev c" using qi Cons by (simp add: queue_inv_def)
    have "queue_inv lev c q' seen"
      using qi Cons lc unfolding queue_inv_def by (auto intro: le_trans)
    moreover have "closed_inv g c (edges_of g c) q' seen"
      unfolding closed_inv_def
    proof (intro conjI ballI impI allI)
      fix u v assume "u \<in> seen" "u \<notin> set q'" "u \<noteq> c" "(u, v) \<in> edge_rel g"
      then show "v \<in> seen" using ci Cons unfolding closed_inv_def by (cases "u = cur") auto
    next
      fix v assume "(c, v) \<in> edge_rel g"
      then show "v \<in> seen \<or> v \<in> to ` set (edges_of g c)" by (simp add: edge_rel_def)
    next
      fix e assume "e \<in> set (edges_of g c)"
      then show "(c, to e) \<in> edge_rel g" by (simp add: edge_rel_def)
    qed
    ultimately have "bfs_inv g start goal lev c (edges_of g c) q' prev seen"
      using t gs li by (simp add: bfs_inv_def)
    with Cons show ?thesis by (auto simp: bfs_outer_inv_def)
  qed
qed

lemma closed_unreachable:
  assumes "start \<in> seen" "\<forall>u\<in>seen. \<forall>v. (u, v) \<in> edge_rel g \<longrightarrow> v \<in> seen"
    and "(start, x) \<in> (edge_rel g)\<^sup>*"
  shows "x \<in> seen"
  using assms(3) by (induction rule: rtrancl_induct) (use assms(1,2) in auto)

lemma bfs_loop_inv:
  "start \<noteq> goal \<Longrightarrow> bfs_outer_inv g start goal q0 prev seen \<Longrightarrow>
    (case bfs_loop g start goal q0 prev seen of
       None \<Rightarrow> False
     | Some None \<Rightarrow> (start, goal) \<notin> (edge_rel g)\<^sup>*
     | Some (Some p) \<Rightarrow> shortest_route g start goal p \<and> distinct p)"
proof (induction g start goal q0 prev seen rule: bfs_loop.induct)
  case (1 g start goal prev seen)
  then have "start \<in> seen" "goal \<notin> seen" "\<forall>u\<in>seen. \<forall>v. (u, v) \<in> edge_rel g \<longrightarrow> v \<in> seen"
    by (simp_all add: bfs_outer_inv_def)
  then have "(start, goal) \<notin> (edge_rel g)\<^sup>*" using closed_unreachable by blast
  then show ?case by simp
next
  case (2 g start goal cur q prev seen)
  then obtain lev where inv: "bfs_inv g start goal lev cur (edges_of g cur) q prev seen"
    by (auto simp: bfs_outer_inv_def)
  note sg = \<open>start \<noteq> goal\<close>
  show ?case
  proof (cases "scan_edges start goal cur (edges_of g cur) q prev seen")
    case (Return r)
    with scan_edges_inv[OF sg inv] show ?thesis by auto
  next
    case (Continue q' prev' seen')
    with scan_edges_inv[OF sg inv] obtain lev' where
      "bfs_inv g start goal lev' cur [] q' prev' seen'" by auto
    then have "bfs_outer_inv g start goal q' prev' seen'" by (rule scan_done_outer)
    from "2.IH"[OF Continue sg this] Continue show ?thesis by simp
  qed
qed


lemma walk_rtrancl: "walk g p \<Longrightarrow> (hd p, last p) \<in> (edge_rel g)\<^sup>*"
proof (induction p rule: induct_list012)
  case (3 x y zs)
  then have "(y, last (y # zs)) \<in> (edge_rel g)\<^sup>*" by simp
  moreover from 3 have "(x, y) \<in> edge_rel g" by simp
  ultimately show ?case by (simp add: converse_rtrancl_into_rtrancl)
qed simp_all

lemma bfs_inv_init:
  assumes "start \<noteq> goal"
  shows "bfs_outer_inv g start goal [start] Map.empty {start}"
proof -
  have "tree_inv g start (\<lambda>_. 0) Map.empty {start}" by (simp add: tree_inv_def)
  moreover have "queue_inv (\<lambda>_. 0) start [] {start}" by (simp add: queue_inv_def)
  moreover have "closed_inv g start (edges_of g start) [] {start}"
    by (simp add: closed_inv_def edge_rel_def)
  moreover have "lev_inv g (\<lambda>_. 0) {start}" by (simp add: lev_inv_def)
  ultimately have "bfs_inv g start goal (\<lambda>_. 0) start (edges_of g start) [] Map.empty {start}"
    using assms by (simp add: bfs_inv_def)
  then show ?thesis unfolding bfs_outer_inv_def by auto
qed

lemma bfsPath_spec:
  "(case bfsPath g start goal of
      None \<Rightarrow> False
    | Some None \<Rightarrow> (start, goal) \<notin> (edge_rel g)\<^sup>*
    | Some (Some p) \<Rightarrow> shortest_route g start goal p \<and> distinct p)"
proof (cases "start = goal")
  case True
  have "length [goal] \<le> length p'" if "route_from_to g goal goal p'" for p'
    using that by (cases p') (simp_all add: route_from_to_def)
  then have "shortest_route g goal goal [goal]"
    by (simp add: shortest_route_def route_from_to_def)
  with True show ?thesis by (simp add: bfsPath_def)
next
  case False
  from bfs_loop_inv[OF False bfs_inv_init[OF False]] False
  show ?thesis by (simp add: bfsPath_def)
qed

lemma bfsPath_returns: "\<exists>r. bfsPath g start goal = Some r"
  using bfsPath_spec[where g=g and start=start and goal=goal] by (cases "bfsPath g start goal") auto

lemma bfsPath_Some:
  assumes "bfsPath g start goal = Some (Some p)"
  shows "shortest_route g start goal p" "distinct p" "p \<noteq> []" "hd p = start" "last p = goal"
proof -
  from bfsPath_spec[where g=g and start=start and goal=goal] assms show s: "shortest_route g start goal p" and "distinct p"
    by simp_all
  then show "p \<noteq> []" "hd p = start" "last p = goal"
    by (auto simp: shortest_route_def route_from_to_def)
qed

section \<open>Claims about the path planner\<close>

lemma edge_rel_iff: "((u, v) \<in> edge_rel g) = (v \<in> set (map to (edges_of g u)))"
  by (simp add: edge_rel_def)

lemma walk_int_elevator_exit:
  "walk edges_int [''elevator'', ''washroom'', ''mainhall'', ''exitdoor'']"
  by (simp add: edge_rel_iff edges_of_def edges_int_def)

lemma reach_int_elevator_exit: "(''elevator'', ''exitdoor'') \<in> (edge_rel edges_int)\<^sup>*"
  using walk_rtrancl[OF walk_int_elevator_exit] by simp

text \<open>
  C4. For every pair of landmarks with the goal reachable from the start along directed
  edges, \<open>bfsPath\<close> returns a sequence that begins with the start, ends with the goal,
  follows a directed edge at every step, and is as short as any directed path from the
  start to the goal.
\<close>

theorem bfsPath_shortest:
  assumes "(start, goal) \<in> (edge_rel g)\<^sup>*"
  shows "\<exists>p. bfsPath g start goal = Some (Some p) \<and> hd p = start \<and> last p = goal \<and> walk g p \<and>
             (\<forall>p'. walk g p' \<and> hd p' = start \<and> last p' = goal \<longrightarrow> length p \<le> length p')"
proof -
  from bfsPath_spec[where g=g and start=start and goal=goal] assms obtain p where
    p: "bfsPath g start goal = Some (Some p)" "shortest_route g start goal p"
    by (auto split: option.splits)
  then show ?thesis unfolding shortest_route_def route_from_to_def by blast
qed

theorem bfsPath_shortest_witness:
  "(''elevator'', ''exitdoor'') \<in> (edge_rel edges_int)\<^sup>* \<and>
   (\<exists>p. bfsPath edges_int ''elevator'' ''exitdoor'' = Some (Some p) \<and>
        hd p = ''elevator'' \<and> last p = ''exitdoor'' \<and> walk edges_int p \<and>
        length p \<le> length [''elevator'', ''washroom'', ''mainhall'', ''exitdoor''])"
proof -
  from bfsPath_shortest[OF reach_int_elevator_exit] obtain p where
    p: "bfsPath edges_int ''elevator'' ''exitdoor'' = Some (Some p)"
       "hd p = ''elevator''" "last p = ''exitdoor''" "walk edges_int p"
       "\<forall>p'. walk edges_int p' \<and> hd p' = ''elevator'' \<and> last p' = ''exitdoor''
              \<longrightarrow> length p \<le> length p'"
    by blast
  from p(5) walk_int_elevator_exit
  have "length p \<le> length [''elevator'', ''washroom'', ''mainhall'', ''exitdoor'']"
    by (metis last.simps list.sel(1) list.distinct(1))
  with p reach_int_elevator_exit show ?thesis by blast
qed

text \<open>
  C5. For every pair of landmarks, \<open>bfsPath\<close> returns \<^verbatim>\<open>null\<close> exactly when the goal is
  not reachable from the start along directed edges; it always returns; and a start
  equal to the goal yields the single-element sequence.
\<close>

theorem bfsPath_none_iff:
  "(bfsPath g start goal = Some None) = ((start, goal) \<notin> (edge_rel g)\<^sup>*) \<and>
   bfsPath g start goal \<noteq> None \<and> bfsPath g start start = Some (Some [start])"
proof (intro conjI)
  show "(bfsPath g start goal = Some None) = ((start, goal) \<notin> (edge_rel g)\<^sup>*)"
  proof
    assume "bfsPath g start goal = Some None"
    with bfsPath_spec[where g=g and start=start and goal=goal]
    show "(start, goal) \<notin> (edge_rel g)\<^sup>*" by simp
  next
    assume n: "(start, goal) \<notin> (edge_rel g)\<^sup>*"
    show "bfsPath g start goal = Some None"
    proof (cases "bfsPath g start goal")
      case None
      with bfsPath_spec[where g=g and start=start and goal=goal] show ?thesis by simp
    next
      case (Some r)
      show ?thesis
      proof (cases r)
        case None
        with Some show ?thesis by simp
      next
        case (Some p)
        with \<open>bfsPath g start goal = Some r\<close> have "bfsPath g start goal = Some (Some p)" by simp
        from bfsPath_Some[OF this] have "walk g p" "hd p = start" "last p = goal"
          by (simp_all add: shortest_route_def route_from_to_def)
        with walk_rtrancl[of g p] n show ?thesis by simp
      qed
    qed
  qed
  show "bfsPath g start goal \<noteq> None"
    using bfsPath_returns[where g=g and start=start and goal=goal] by auto
  show "bfsPath g start start = Some (Some [start])" by (simp add: bfsPath_def)
qed

theorem bfsPath_none_iff_witness:
  "bfsPath (edges config_abc) ''C'' ''A'' = Some None \<and>
   (''C'', ''A'') \<notin> (edge_rel (edges config_abc))\<^sup>* \<and>
   bfsPath (edges config_abc) ''A'' ''A'' = Some (Some [''A''])"
proof -
  have "bfsPath (edges config_abc) ''C'' ''A'' = Some None"
    by (simp add: bfsPath_def config_abc_def edges_of_def)
  with bfsPath_none_iff[of "edges config_abc" "''C''" "''A''"]
       bfsPath_none_iff[of "edges config_abc" "''A''" "''A''"]
  show ?thesis by simp
qed

section \<open>Invariants of the navigation state\<close>


text \<open>
  The invariant of the session state: a route, when set, is duplicate-free, ends at the
  destination, and the route index points into it at the current location. In
  IntegratedNavigation moreover a route is set only while not arrived, and the index is
  at a last position other than 0 only after the arrival announcement threw for want
  of a destination label.
\<close>

definition inv_nav :: "nav \<Rightarrow> bool" where
  "inv_nav s =
     (currentNode s \<noteq> Some [] \<and>
      (\<forall>p. path s = Some p \<longrightarrow>
         pathStep s < length p \<and> distinct p \<and>
         currentNode s = Some (p ! pathStep s) \<and> last p = destinationNode s))"

definition inv_int :: "Config \<Rightarrow> nav_int \<Rightarrow> bool" where
  "inv_int cfg s =
     (currentNode s \<noteq> Some [] \<and>
      (\<forall>p. path s = Some p \<longrightarrow>
         pathStep s < length p \<and> distinct p \<and>
         currentNode s = Some (p ! pathStep s) \<and> last p = destinationNode s \<and>
         \<not> arrived s \<and>
         (pathStep s = length p - 1 \<longrightarrow>
            pathStep s = 0 \<or> node_label cfg (destinationNode s) = None)))"

lemma bfsPath_route:
  assumes "bfsPath g start goal = Some (Some p)"
  shows "0 < length p" "distinct p" "p ! 0 = start" "last p = goal"
proof -
  from bfsPath_Some[OF assms] have "p \<noteq> []" "hd p = start" "last p = goal" "distinct p"
    by simp_all
  then show "0 < length p" "distinct p" "p ! 0 = start" "last p = goal"
    by (simp_all add: hd_conv_nth)
qed

lemma inv_nav_init: "inv_nav (nav_init d)"
  by (simp add: inv_nav_def nav_init_def)

lemma inv_nav_announce: "inv_nav s \<Longrightarrow> inv_nav (announceNextInstruction_nav cfg s)"
  by (auto simp: inv_nav_def announceNextInstruction_nav_def speak_def split: option.splits)

lemma inv_nav_start:
  assumes "nodeId \<noteq> []" "after (startRoutingFrom_nav cfg now nodeId s) = Some s'"
  shows "inv_nav s'"
proof (cases "bfsPath (edges cfg) nodeId (destinationNode s)")
  case None
  with assms show ?thesis by (simp add: startRoutingFrom_nav_def)
next
  case (Some r)
  show ?thesis
  proof (cases r)
    case None
    with Some assms show ?thesis
      by (auto simp: startRoutingFrom_nav_def inv_nav_def speak_def)
  next
    case (Some p)
    with \<open>bfsPath (edges cfg) nodeId (destinationNode s) = Some r\<close>
    have b: "bfsPath (edges cfg) nodeId (destinationNode s) = Some (Some p)" by simp
    from bfsPath_route[OF b] b assms show ?thesis
      by (auto simp: startRoutingFrom_nav_def inv_nav_def speak_def Let_def split: option.splits)
  qed
qed

lemma step_lt: "(int a < int b - 1) = (Suc a < b)"
  by linarith

lemma step_ge: "(int b - 1 \<le> int a) = (b \<le> Suc a)"
  by linarith

text \<open>
  The state after the opening statements of \<^verbatim>\<open>onNodeConfirmed\<close>, and the handler branch
  by branch.
\<close>

definition confirm_pre :: "int \<Rightarrow> 'a nav_scheme \<Rightarrow> 'a nav_scheme" where
  "confirm_pre now s = s\<lparr>lastConfirmedAt := now, segmentPrompted := False, cues := cues s + 1\<rparr>"

lemma onNodeConfirmed_nav_inactive:
  "nodeId \<notin> ACTIVE_NODES cfg \<Longrightarrow> onNodeConfirmed_nav cfg now nodeId s = Returned s"
  by (simp add: onNodeConfirmed_nav_def)

lemma onNodeConfirmed_nav_start:
  "nodeId \<in> ACTIVE_NODES cfg \<Longrightarrow> path s = None \<or> falsy (currentNode s) \<Longrightarrow>
   onNodeConfirmed_nav cfg now nodeId s = startRoutingFrom_nav cfg now nodeId (confirm_pre now s)"
  by (cases "path s")
     (simp_all add: onNodeConfirmed_nav_def beep_vibrate_def confirm_pre_def Let_def)

lemma onNodeConfirmed_nav_next:
  "nodeId \<in> ACTIVE_NODES cfg \<Longrightarrow> path s = Some p \<Longrightarrow> \<not> falsy (currentNode s) \<Longrightarrow>
   Suc (pathStep s) < length p \<Longrightarrow> nodeId = p ! Suc (pathStep s) \<Longrightarrow>
   onNodeConfirmed_nav cfg now nodeId s =
     Returned (announceNextInstruction_nav cfg
       ((confirm_pre now s)\<lparr>pathStep := Suc (pathStep s), currentNode := Some nodeId\<rparr>))"
  by (simp add: onNodeConfirmed_nav_def beep_vibrate_def confirm_pre_def Let_def step_lt)

lemma onNodeConfirmed_nav_off:
  "nodeId \<in> ACTIVE_NODES cfg \<Longrightarrow> path s = Some p \<Longrightarrow> \<not> falsy (currentNode s) \<Longrightarrow>
   \<not> (Suc (pathStep s) < length p \<and> nodeId = p ! Suc (pathStep s)) \<Longrightarrow>
   Some nodeId \<noteq> currentNode s \<Longrightarrow>
   onNodeConfirmed_nav cfg now nodeId s =
     (case bfsPath (edges cfg) nodeId (destinationNode s) of
        None \<Rightarrow> NoReturn
      | Some r \<Rightarrow>
          (case r of
             None \<Rightarrow> Returned (speak ''I cannot find a route from here.'' True
                        ((confirm_pre now s)\<lparr>currentNode := Some nodeId, path := None, pathStep := 0\<rparr>))
           | Some p' \<Rightarrow>
               (case node_label cfg nodeId of
                  None \<Rightarrow> Threw TypeError
                    ((confirm_pre now s)\<lparr>currentNode := Some nodeId, path := Some p', pathStep := 0\<rparr>)
                | Some l \<Rightarrow>
                    Returned ((speak (''Re routing from '' @ l @ ''.'') True
                      ((confirm_pre now s)\<lparr>currentNode := Some nodeId, path := Some p', pathStep := 0\<rparr>))
                      \<lparr>scheduled := scheduled s @ [350]\<rparr>))))"
  by (cases "Suc (pathStep s) < length p")
     (simp_all add: onNodeConfirmed_nav_def beep_vibrate_def confirm_pre_def Let_def step_lt
        split: option.splits)

lemma onNodeConfirmed_nav_same:
  "nodeId \<in> ACTIVE_NODES cfg \<Longrightarrow> path s = Some p \<Longrightarrow> \<not> falsy (currentNode s) \<Longrightarrow>
   \<not> (Suc (pathStep s) < length p \<and> nodeId = p ! Suc (pathStep s)) \<Longrightarrow>
   Some nodeId = currentNode s \<Longrightarrow>
   onNodeConfirmed_nav cfg now nodeId s =
     Returned (announceNextInstruction_nav cfg (confirm_pre now s))"
  by (cases "Suc (pathStep s) < length p")
     (simp_all add: onNodeConfirmed_nav_def beep_vibrate_def confirm_pre_def Let_def step_lt)

lemma inv_nav_pre: "inv_nav s \<Longrightarrow> inv_nav (confirm_pre now s)"
  by (simp add: inv_nav_def confirm_pre_def)

lemma inv_nav_confirmed:
  assumes "inv_nav s" "nodeId \<noteq> []" "after (onNodeConfirmed_nav cfg now nodeId s) = Some s'"
  shows "inv_nav s'"
proof (cases "nodeId \<in> ACTIVE_NODES cfg")
  case False
  with assms show ?thesis by (simp add: onNodeConfirmed_nav_inactive)
next
  case act: True
  show ?thesis
  proof (cases "path s = None \<or> falsy (currentNode s)")
    case True
    from assms(3) onNodeConfirmed_nav_start[OF act True]
    have "after (startRoutingFrom_nav cfg now nodeId (confirm_pre now s)) = Some s'" by simp
    from inv_nav_start[OF assms(2) this] show ?thesis .
  next
    case False
    then obtain p where p: "path s = Some p" and cur: "\<not> falsy (currentNode s)" by auto
    show ?thesis
    proof (cases "Suc (pathStep s) < length p \<and> nodeId = p ! Suc (pathStep s)")
      case True
      let ?s2 = "(confirm_pre now s)\<lparr>pathStep := Suc (pathStep s), currentNode := Some nodeId\<rparr>"
      have "inv_nav ?s2" using assms(1,2) p True
        by (auto simp: inv_nav_def confirm_pre_def)
      then have "inv_nav (announceNextInstruction_nav cfg ?s2)" by (rule inv_nav_announce)
      moreover have "s' = announceNextInstruction_nav cfg ?s2"
        using assms(3) onNodeConfirmed_nav_next[OF act p cur] True by simp
      ultimately show ?thesis by simp
    next
      case nx: False
      show ?thesis
      proof (cases "Some nodeId = currentNode s")
        case True
        have "inv_nav (announceNextInstruction_nav cfg (confirm_pre now s))"
          using assms(1) by (intro inv_nav_announce inv_nav_pre)
        moreover have "s' = announceNextInstruction_nav cfg (confirm_pre now s)"
          using assms(3) onNodeConfirmed_nav_same[OF act p cur nx True] by simp
        ultimately show ?thesis by simp
      next
        case off: False
        note eq = onNodeConfirmed_nav_off[OF act p cur nx off, of now]
        show ?thesis
        proof (cases "bfsPath (edges cfg) nodeId (destinationNode s)")
          case None
          with assms(3) eq show ?thesis by simp
        next
          case (Some r)
          note br = this
          show ?thesis
          proof (cases r)
            case None
            with br assms(2,3) eq show ?thesis
              by (auto simp: inv_nav_def speak_def confirm_pre_def)
          next
            case (Some p')
            with br have b: "bfsPath (edges cfg) nodeId (destinationNode s) = Some (Some p')"
              by simp
            from bfsPath_route[OF b] b assms(2,3) eq show ?thesis
              by (auto simp: inv_nav_def speak_def confirm_pre_def split: option.splits)
          qed
        qed
      qed
    qed
  qed
qed

lemma inv_nav_handle:
  assumes "inv_nav s" "after (handle_nav cfg ev s) = Some s'"
  shows "inv_nav s'"
proof (cases ev)
  case (Confirmed now nodeId)
  with assms inv_nav_confirmed show ?thesis by (auto split: if_splits)
next
  case (DestinationChanged d)
  with assms show ?thesis
    by (auto simp: setDestinationHandler_nav_def inv_nav_def speak_def Let_def split: option.splits)
next
  case Reset
  with assms show ?thesis by (auto simp: resetNav_nav_def inv_nav_def speak_def)
next
  case Repeat
  with assms show ?thesis
    by (cases "lastSpoken s = []") (auto simp: handleRepeat_def inv_nav_def speak_def)
next
  case TimerFired
  have "inv_nav (s\<lparr>scheduled := ds\<rparr>)" for ds using assms(1) by (simp add: inv_nav_def)
  with TimerFired assms inv_nav_announce show ?thesis
    by (auto simp: timerFired_nav_def split: list.splits)
next
  case (MovementTick now speaking)
  with assms show ?thesis
    by (auto simp: maybeGiveMovementPrompt_nav_def inv_nav_def speak_def split: if_splits)
qed

lemma inv_nav_run: "inv_nav s \<Longrightarrow> run_nav cfg evs s = Some s' \<Longrightarrow> inv_nav s'"
proof (induction evs arbitrary: s)
  case Nil
  then show ?case by simp
next
  case (Cons ev evs)
  then show ?case by (auto split: option.splits dest: inv_nav_handle)
qed


definition inv_core :: "nav_int \<Rightarrow> bool" where
  "inv_core s =
     (currentNode s \<noteq> Some [] \<and>
      (\<forall>p. path s = Some p \<longrightarrow>
         pathStep s < length p \<and> distinct p \<and>
         currentNode s = Some (p ! pathStep s) \<and> last p = destinationNode s \<and> \<not> arrived s))"

lemma inv_int_core: "inv_int cfg s \<Longrightarrow> inv_core s"
  by (simp add: inv_int_def inv_core_def)

lemma inv_int_init: "inv_int cfg (int_init d)"
  by (simp add: inv_int_def int_init_def)

lemma inv_int_speak: "inv_int cfg (speak m i s) = inv_int cfg s"
  by (simp add: inv_int_def speak_def)

lemma inv_int_scheduled: "inv_int cfg (s\<lparr>scheduled := x\<rparr>) = inv_int cfg s"
  by (simp add: inv_int_def)

lemma inv_int_finish: "currentNode s \<noteq> Some [] \<Longrightarrow> inv_int cfg (finishArrival msg s)"
  by (simp add: inv_int_def finishArrival_def speak_def)

lemma inv_int_announce:
  assumes "inv_core s" "after (announceNextInstruction_int cfg s) = Some s'"
  shows "inv_int cfg s'"
proof (cases "path s")
  case None
  with assms show ?thesis by (simp add: announceNextInstruction_int_def inv_int_def inv_core_def)
next
  case (Some p)
  with assms(1) have c: "currentNode s \<noteq> Some []" "pathStep s < length p" "distinct p"
    "currentNode s = Some (p ! pathStep s)" "last p = destinationNode s" "\<not> arrived s"
    unfolding inv_core_def by blast+
  then have nf: "\<not> falsy (currentNode s)" by (simp add: falsy_def)
  show ?thesis
  proof (cases "length p \<le> Suc (pathStep s)")
    case True
    show ?thesis
    proof (cases "node_label cfg (destinationNode s)")
      case None
      with True Some nf assms(2) have "s' = s"
        by (simp add: announceNextInstruction_int_def step_ge)
      with c Some None show ?thesis by (simp add: inv_int_def)
    next
      case (Some l)
      with True \<open>path s = Some p\<close> nf assms(2)
      have "s' = finishArrival (''You have arrived at '' @ l @ ''.'') s"
        by (simp add: announceNextInstruction_int_def step_ge)
      with c(1) show ?thesis by (simp add: inv_int_finish)
    qed
  next
    case False
    with Some nf assms(2) c show ?thesis
      by (auto simp: announceNextInstruction_int_def step_ge Let_def inv_int_def speak_def
               split: option.splits)
  qed
qed

lemma inv_int_bathroom:
  assumes "inv_core s" "destinationNode s = ''washroom''"
    "after (bathroomArrivalMessage cfg c s) = Some s'"
  shows "inv_int cfg s'"
proof (cases "node_label cfg ''washroom''")
  case None
  with assms have "s' = s" by (simp add: bathroomArrivalMessage_def)
  with assms None show ?thesis by (auto simp: inv_int_def inv_core_def)
next
  case (Some l)
  with assms obtain msg where "s' = finishArrival msg s"
    by (auto simp: bathroomArrivalMessage_def Let_def)
  with assms(1) show ?thesis by (simp add: inv_int_finish inv_core_def)
qed

lemma inv_int_start:
  assumes "nodeId \<noteq> []" "\<not> arrived s" "after (startRoutingFrom_int cfg now nodeId s) = Some s'"
  shows "inv_int cfg s'"
proof (cases "bfsPath (edges cfg) nodeId (destinationNode s)")
  case None
  with assms show ?thesis by (simp add: startRoutingFrom_int_def)
next
  case (Some r)
  note br = this
  show ?thesis
  proof (cases r)
    case None
    with br assms show ?thesis
      by (auto simp: startRoutingFrom_int_def inv_int_def speak_def)
  next
    case (Some p)
    with br have b: "bfsPath (edges cfg) nodeId (destinationNode s) = Some (Some p)" by simp
    let ?s1 = "s\<lparr>lastNode := currentNode s, currentNode := Some nodeId, path := Some p,
                  pathStep := 0, segmentPrompted := False, lastConfirmedAt := now\<rparr>"
    from bfsPath_route[OF b] assms(1,2) have "inv_core ?s1" by (simp add: inv_core_def)
    moreover from assms(3) b have "after (announceNextInstruction_int cfg ?s1) = Some s'"
      by (simp add: startRoutingFrom_int_def)
    ultimately show ?thesis by (rule inv_int_announce)
  qed
qed

lemma onNodeConfirmed_int_inactive:
  "nodeId \<notin> ACTIVE_NODES cfg \<Longrightarrow> onNodeConfirmed_int cfg now nodeId s = Returned s"
  by (simp add: onNodeConfirmed_int_def)

lemma onNodeConfirmed_int_arrived:
  "arrived s \<Longrightarrow> onNodeConfirmed_int cfg now nodeId s = Returned s"
  by (simp add: onNodeConfirmed_int_def)

lemma onNodeConfirmed_int_start:
  "nodeId \<in> ACTIVE_NODES cfg \<Longrightarrow> \<not> arrived s \<Longrightarrow> path s = None \<or> falsy (currentNode s) \<Longrightarrow>
   onNodeConfirmed_int cfg now nodeId s = startRoutingFrom_int cfg now nodeId (confirm_pre now s)"
  by (cases "path s")
     (simp_all add: onNodeConfirmed_int_def beep_vibrate_def confirm_pre_def Let_def)

lemma onNodeConfirmed_int_next:
  "nodeId \<in> ACTIVE_NODES cfg \<Longrightarrow> \<not> arrived s \<Longrightarrow> path s = Some p \<Longrightarrow> \<not> falsy (currentNode s) \<Longrightarrow>
   Suc (pathStep s) < length p \<Longrightarrow> nodeId = p ! Suc (pathStep s) \<Longrightarrow>
   onNodeConfirmed_int cfg now nodeId s =
     (if destinationNode s = ''washroom'' \<and> nodeId = ''washroom''
      then bathroomArrivalMessage cfg (currentNode s)
             ((confirm_pre now s)\<lparr>pathStep := Suc (pathStep s), lastNode := currentNode s,
                                   currentNode := Some nodeId\<rparr>)
      else announceNextInstruction_int cfg
             ((confirm_pre now s)\<lparr>pathStep := Suc (pathStep s), lastNode := currentNode s,
                                   currentNode := Some nodeId\<rparr>))"
  by (simp add: onNodeConfirmed_int_def beep_vibrate_def confirm_pre_def Let_def step_lt)

lemma onNodeConfirmed_int_off:
  "nodeId \<in> ACTIVE_NODES cfg \<Longrightarrow> \<not> arrived s \<Longrightarrow> path s = Some p \<Longrightarrow> \<not> falsy (currentNode s) \<Longrightarrow>
   \<not> (Suc (pathStep s) < length p \<and> nodeId = p ! Suc (pathStep s)) \<Longrightarrow>
   Some nodeId \<noteq> currentNode s \<Longrightarrow>
   onNodeConfirmed_int cfg now nodeId s =
     (case bfsPath (edges cfg) nodeId (destinationNode s) of
        None \<Rightarrow> NoReturn
      | Some r \<Rightarrow>
          (case r of
             None \<Rightarrow> Returned (speak ''I cannot find a route from here.'' True
                        ((confirm_pre now s)\<lparr>lastNode := currentNode s, currentNode := Some nodeId,
                                              path := None, pathStep := 0\<rparr>))
           | Some p' \<Rightarrow>
               if destinationNode s = ''washroom'' \<and> nodeId = ''washroom''
               then bathroomArrivalMessage cfg (currentNode s)
                      ((confirm_pre now s)\<lparr>lastNode := currentNode s, currentNode := Some nodeId,
                                            path := Some p', pathStep := 0\<rparr>)
               else (case node_label cfg nodeId of
                       None \<Rightarrow> Threw TypeError
                         ((confirm_pre now s)\<lparr>lastNode := currentNode s, currentNode := Some nodeId,
                                               path := Some p', pathStep := 0\<rparr>)
                     | Some l \<Rightarrow>
                         Returned ((speak (''You are at '' @ l @ ''. Re routing.'') True
                           ((confirm_pre now s)\<lparr>lastNode := currentNode s, currentNode := Some nodeId,
                                                 path := Some p', pathStep := 0\<rparr>))
                           \<lparr>scheduled := scheduled s @ [350]\<rparr>))))"
  by (cases "Suc (pathStep s) < length p"; cases "destinationNode s = ''washroom''";
      cases "nodeId = ''washroom''";
      simp add: onNodeConfirmed_int_def beep_vibrate_def confirm_pre_def Let_def step_lt
        split: option.splits)

lemma onNodeConfirmed_int_same:
  "nodeId \<in> ACTIVE_NODES cfg \<Longrightarrow> \<not> arrived s \<Longrightarrow> path s = Some p \<Longrightarrow> \<not> falsy (currentNode s) \<Longrightarrow>
   \<not> (Suc (pathStep s) < length p \<and> nodeId = p ! Suc (pathStep s)) \<Longrightarrow>
   Some nodeId = currentNode s \<Longrightarrow>
   onNodeConfirmed_int cfg now nodeId s = announceNextInstruction_int cfg (confirm_pre now s)"
  by (cases "Suc (pathStep s) < length p")
     (simp_all add: onNodeConfirmed_int_def beep_vibrate_def confirm_pre_def Let_def step_lt)

lemma inv_core_pre: "inv_core s \<Longrightarrow> inv_core (confirm_pre now s)"
  by (simp add: inv_core_def confirm_pre_def)

lemma inv_int_confirmed:
  assumes "inv_int cfg s" "nodeId \<noteq> []" "after (onNodeConfirmed_int cfg now nodeId s) = Some s'"
  shows "inv_int cfg s'"
proof (cases "nodeId \<in> ACTIVE_NODES cfg \<and> \<not> arrived s")
  case False
  with assms show ?thesis
    by (auto simp: onNodeConfirmed_int_inactive onNodeConfirmed_int_arrived)
next
  case True
  then have act: "nodeId \<in> ACTIVE_NODES cfg" and na: "\<not> arrived s" by simp_all
  have core: "inv_core s" using assms(1) by (rule inv_int_core)
  show ?thesis
  proof (cases "path s = None \<or> falsy (currentNode s)")
    case True
    from assms(3) onNodeConfirmed_int_start[OF act na True]
    have "after (startRoutingFrom_int cfg now nodeId (confirm_pre now s)) = Some s'" by simp
    moreover have "\<not> arrived (confirm_pre now s)" using na by (simp add: confirm_pre_def)
    ultimately show ?thesis using inv_int_start[OF assms(2)] by blast
  next
    case False
    then obtain p where p: "path s = Some p" and cur: "\<not> falsy (currentNode s)" by auto
    show ?thesis
    proof (cases "Suc (pathStep s) < length p \<and> nodeId = p ! Suc (pathStep s)")
      case True
      let ?s2 = "(confirm_pre now s)\<lparr>pathStep := Suc (pathStep s), lastNode := currentNode s,
                                     currentNode := Some nodeId\<rparr>"
      have c2: "inv_core ?s2" using core assms(2) p True
        by (auto simp: inv_core_def confirm_pre_def)
      note eq = onNodeConfirmed_int_next[OF act na p cur, of now]
      show ?thesis
      proof (cases "destinationNode s = ''washroom'' \<and> nodeId = ''washroom''")
        case w: True
        with eq True assms(3)
        have "after (bathroomArrivalMessage cfg (currentNode s) ?s2) = Some s'" by simp
        moreover have "destinationNode ?s2 = ''washroom''" using w by (simp add: confirm_pre_def)
        ultimately show ?thesis using inv_int_bathroom[OF c2] by blast
      next
        case False
        with eq True assms(3)
        have "after (announceNextInstruction_int cfg ?s2) = Some s'" by auto
        with c2 show ?thesis by (rule inv_int_announce)
      qed
    next
      case nx: False
      show ?thesis
      proof (cases "Some nodeId = currentNode s")
        case True
        from assms(3) onNodeConfirmed_int_same[OF act na p cur nx True]
        have "after (announceNextInstruction_int cfg (confirm_pre now s)) = Some s'" by simp
        with inv_core_pre[OF core] show ?thesis by (rule inv_int_announce)
      next
        case off: False
        note eq = onNodeConfirmed_int_off[OF act na p cur nx off, of now]
        show ?thesis
        proof (cases "bfsPath (edges cfg) nodeId (destinationNode s)")
          case None
          with assms(3) eq show ?thesis by simp
        next
          case (Some r)
          note br = this
          show ?thesis
          proof (cases r)
            case None
            with br assms(2,3) eq show ?thesis
              by (auto simp: inv_int_def speak_def confirm_pre_def)
          next
            case (Some p')
            with br have b: "bfsPath (edges cfg) nodeId (destinationNode s) = Some (Some p')"
              by simp
            let ?s2 = "(confirm_pre now s)\<lparr>lastNode := currentNode s, currentNode := Some nodeId,
                                           path := Some p', pathStep := 0\<rparr>"
            from bfsPath_route[OF b] assms(2) na have c2: "inv_core ?s2"
              by (simp add: inv_core_def confirm_pre_def)
            show ?thesis
            proof (cases "destinationNode s = ''washroom'' \<and> nodeId = ''washroom''")
              case w: True
              with eq b assms(3)
              have "after (bathroomArrivalMessage cfg (currentNode s) ?s2) = Some s'" by simp
              moreover have "destinationNode ?s2 = ''washroom''"
                using w by (simp add: confirm_pre_def)
              ultimately show ?thesis using inv_int_bathroom[OF c2] by blast
            next
              case False
              have i2: "inv_int cfg ?s2" using c2 by (auto simp: inv_int_def inv_core_def)
              show ?thesis
              proof (cases "node_label cfg nodeId")
                case None
                with eq b False assms(3) have "s' = ?s2" by auto
                with i2 show ?thesis by simp
              next
                case (Some l)
                with eq b False assms(3)
                have "s' = (speak (''You are at '' @ l @ ''. Re routing.'') True ?s2)
                             \<lparr>scheduled := scheduled s @ [350]\<rparr>" by auto
                with i2 show ?thesis by (simp add: inv_int_speak inv_int_scheduled)
              qed
            qed
          qed
        qed
      qed
    qed
  qed
qed

lemma inv_int_handle:
  assumes "inv_int cfg s" "after (handle_int cfg ev s) = Some s'"
  shows "inv_int cfg s'"
proof (cases ev)
  case (Confirmed now nodeId)
  with assms inv_int_confirmed show ?thesis by (auto split: if_splits)
next
  case (DestinationChanged d)
  with assms show ?thesis
    by (auto simp: setDestinationHandler_int_def inv_int_def speak_def Let_def split: option.splits)
next
  case Reset
  with assms show ?thesis by (auto simp: resetNav_int_def inv_int_def speak_def)
next
  case Repeat
  with assms show ?thesis
    by (cases "lastSpoken s = []") (auto simp: handleRepeat_def inv_int_def speak_def)
next
  case TimerFired
  have "inv_core (s\<lparr>scheduled := ds\<rparr>)" for ds
    using inv_int_core[OF assms(1)] by (simp add: inv_core_def)
  with TimerFired assms inv_int_announce show ?thesis
    by (auto simp: timerFired_int_def split: list.splits)
next
  case (MovementTick now speaking)
  with assms show ?thesis
    by (auto simp: maybeGiveMovementPrompt_int_def inv_int_def speak_def split: if_splits)
qed

lemma inv_int_run: "inv_int cfg s \<Longrightarrow> run_int cfg evs s = Some s' \<Longrightarrow> inv_int cfg s'"
proof (induction evs arbitrary: s)
  case Nil
  then show ?case by simp
next
  case (Cons ev evs)
  then show ?case by (auto split: option.splits dest: inv_int_handle)
qed



text \<open>
  Every handler returns or throws: \<open>bfsPath\<close> always returns, and nothing else in a
  handler loops. So every sequence of events leads to a state.
\<close>

definition returns :: "'s outcome \<Rightarrow> bool" where
  "returns out = (after out \<noteq> None)"

lemma returns_simps:
  "returns (Returned s)" "returns (Threw e s)" "\<not> returns NoReturn"
  by (simp_all add: returns_def)

lemma startRoutingFrom_nav_returns: "returns (startRoutingFrom_nav cfg now nodeId s)"
proof -
  obtain r where "bfsPath (edges cfg) nodeId (destinationNode s) = Some r"
    using bfsPath_returns by blast
  then show ?thesis
    by (cases r; cases "node_label cfg nodeId")
       (simp_all add: startRoutingFrom_nav_def returns_simps)
qed

lemma onNodeConfirmed_nav_returns: "returns (onNodeConfirmed_nav cfg now nodeId s)"
proof (cases "nodeId \<in> ACTIVE_NODES cfg")
  case False
  then show ?thesis by (simp add: onNodeConfirmed_nav_inactive returns_simps)
next
  case act: True
  show ?thesis
  proof (cases "path s = None \<or> falsy (currentNode s)")
    case True
    from onNodeConfirmed_nav_start[OF act True] startRoutingFrom_nav_returns
    show ?thesis by simp
  next
    case False
    then obtain p where p: "path s = Some p" and cur: "\<not> falsy (currentNode s)" by auto
    show ?thesis
    proof (cases "Suc (pathStep s) < length p \<and> nodeId = p ! Suc (pathStep s)")
      case True
      then have "onNodeConfirmed_nav cfg now nodeId s =
          Returned (announceNextInstruction_nav cfg
            ((confirm_pre now s)\<lparr>pathStep := Suc (pathStep s), currentNode := Some nodeId\<rparr>))"
        using onNodeConfirmed_nav_next[OF act p cur] by blast
      then show ?thesis by (simp only: returns_simps)
    next
      case nx: False
      show ?thesis
      proof (cases "Some nodeId = currentNode s")
        case True
        from onNodeConfirmed_nav_same[OF act p cur nx True] show ?thesis
          by (simp only: returns_simps)
      next
        case off: False
        obtain r where "bfsPath (edges cfg) nodeId (destinationNode s) = Some r"
          using bfsPath_returns by blast
        with onNodeConfirmed_nav_off[OF act p cur nx off, of now] show ?thesis
          by (cases r; cases "node_label cfg nodeId") (simp_all add: returns_simps)
      qed
    qed
  qed
qed

lemma handle_nav_returns: "returns (handle_nav cfg ev s)"
proof (cases ev)
  case (Confirmed now nodeId)
  then show ?thesis by (simp add: onNodeConfirmed_nav_returns returns_simps)
next
  case (DestinationChanged d)
  then show ?thesis
    by (cases "node_label cfg d") (simp_all add: setDestinationHandler_nav_def Let_def returns_simps)
qed (simp_all add: returns_simps)

lemma run_nav_returns: "\<exists>s'. run_nav cfg evs s = Some s'"
proof (induction evs arbitrary: s)
  case Nil
  show ?case by simp
next
  case (Cons ev evs)
  obtain s1 where "after (handle_nav cfg ev s) = Some s1"
    using handle_nav_returns[of cfg ev s] by (auto simp: returns_def)
  with Cons.IH[of s1] show ?case by simp
qed

lemma announceNextInstruction_int_returns: "returns (announceNextInstruction_int cfg s)"
  by (simp add: announceNextInstruction_int_def Let_def returns_simps split: option.splits)

lemma bathroomArrivalMessage_returns: "returns (bathroomArrivalMessage cfg c s)"
  by (simp add: bathroomArrivalMessage_def Let_def returns_simps split: option.splits)

lemma startRoutingFrom_int_returns: "returns (startRoutingFrom_int cfg now nodeId s)"
proof -
  obtain r where "bfsPath (edges cfg) nodeId (destinationNode s) = Some r"
    using bfsPath_returns by blast
  then show ?thesis
    by (cases r)
       (simp_all add: startRoutingFrom_int_def announceNextInstruction_int_returns returns_simps)
qed

lemma onNodeConfirmed_int_returns: "returns (onNodeConfirmed_int cfg now nodeId s)"
proof (cases "nodeId \<in> ACTIVE_NODES cfg \<and> \<not> arrived s")
  case False
  then show ?thesis
    by (auto simp: onNodeConfirmed_int_inactive onNodeConfirmed_int_arrived returns_simps)
next
  case True
  then have act: "nodeId \<in> ACTIVE_NODES cfg" and na: "\<not> arrived s" by simp_all
  show ?thesis
  proof (cases "path s = None \<or> falsy (currentNode s)")
    case True
    from onNodeConfirmed_int_start[OF act na True] startRoutingFrom_int_returns
    show ?thesis by simp
  next
    case False
    then obtain p where p: "path s = Some p" and cur: "\<not> falsy (currentNode s)" by auto
    show ?thesis
    proof (cases "Suc (pathStep s) < length p \<and> nodeId = p ! Suc (pathStep s)")
      case True
      then have "Suc (pathStep s) < length p" "nodeId = p ! Suc (pathStep s)" by simp_all
      note eq = onNodeConfirmed_int_next[OF act na p cur this, of now]
      show ?thesis unfolding eq
        by (simp only: announceNextInstruction_int_returns bathroomArrivalMessage_returns
              if_split[where P=returns] simp_thms)
    next
      case nx: False
      show ?thesis
      proof (cases "Some nodeId = currentNode s")
        case True
        from onNodeConfirmed_int_same[OF act na p cur nx True] show ?thesis
          by (simp only: announceNextInstruction_int_returns)
      next
        case off: False
        obtain r where "bfsPath (edges cfg) nodeId (destinationNode s) = Some r"
          using bfsPath_returns by blast
        with onNodeConfirmed_int_off[OF act na p cur nx off, of now] show ?thesis
          by (cases r; cases "node_label cfg nodeId")
             (simp_all add: bathroomArrivalMessage_returns returns_simps)
      qed
    qed
  qed
qed

lemma handle_int_returns: "returns (handle_int cfg ev s)"
proof (cases ev)
  case (Confirmed now nodeId)
  then show ?thesis by (simp add: onNodeConfirmed_int_returns returns_simps)
next
  case (DestinationChanged d)
  then show ?thesis
    by (cases "node_label cfg d") (simp_all add: setDestinationHandler_int_def Let_def returns_simps)
next
  case TimerFired
  then show ?thesis
    by (cases "scheduled s")
       (simp_all add: timerFired_int_def announceNextInstruction_int_returns returns_simps)
qed (simp_all add: returns_simps)

lemma run_int_returns: "\<exists>s'. run_int cfg evs s = Some s'"
proof (induction evs arbitrary: s)
  case Nil
  show ?case by simp
next
  case (Cons ev evs)
  obtain s1 where "after (handle_int cfg ev s) = Some s1"
    using handle_int_returns[of cfg ev s] by (auto simp: returns_def)
  with Cons.IH[of s1] show ?case by simp
qed

lemmas nav_eval =
  nav_init_def onNodeConfirmed_nav_def startRoutingFrom_nav_def announceNextInstruction_nav_def
  getEdgeInstruction_nav_def timerFired_nav_def resetNav_nav_def setDestinationHandler_nav_def
  speak_def beep_vibrate_def falsy_def node_label_def bfsPath_def edges_of_def walk_back.simps
  Let_def

lemmas int_eval =
  int_init_def onNodeConfirmed_int_def startRoutingFrom_int_def announceNextInstruction_int_def
  getEdgeInstruction_int_def timerFired_int_def resetNav_int_def setDestinationHandler_int_def
  bathroomArrivalMessage_def finishArrival_def
  speak_def beep_vibrate_def falsy_def node_label_def bfsPath_def edges_of_def walk_back.simps
  Let_def


section \<open>Claims about the route index\<close>

text \<open>
  C3. Every sequence of events (landmark confirmed, destination changed, reset, and
  also repeat, the delayed announcement and the movement prompt) leads from the initial
  session state to a state, and in every state so reached, whenever the route is set
  the route index satisfies \<open>0 \<le> pathStep < length path\<close>. This holds in NavigationPage
  and in IntegratedNavigation.
\<close>

theorem routeIndex_in_range:
  "(\<exists>s0. run_nav cfg evs (nav_init d) = Some s0) \<and>
   (run_nav cfg evs (nav_init d) = Some s \<longrightarrow>
      (\<forall>p. path s = Some p \<longrightarrow> 0 \<le> int (pathStep s) \<and> int (pathStep s) < int (length p))) \<and>
   (\<exists>t0. run_int cfg' evs' (int_init d') = Some t0) \<and>
   (run_int cfg' evs' (int_init d') = Some t \<longrightarrow>
      (\<forall>p. path t = Some p \<longrightarrow> 0 \<le> int (pathStep t) \<and> int (pathStep t) < int (length p)))"
proof (intro conjI impI allI)
  show "\<exists>s0. run_nav cfg evs (nav_init d) = Some s0" by (rule run_nav_returns)
  show "\<exists>t0. run_int cfg' evs' (int_init d') = Some t0" by (rule run_int_returns)
next
  fix p assume "run_nav cfg evs (nav_init d) = Some s" "path s = Some p"
  with inv_nav_run[OF inv_nav_init] have "pathStep s < length p" by (auto simp: inv_nav_def)
  then show "int (pathStep s) < int (length p)" by simp
next
  fix p assume "run_int cfg' evs' (int_init d') = Some t" "path t = Some p"
  with inv_int_run[OF inv_int_init] have "pathStep t < length p" by (auto simp: inv_int_def)
  then show "int (pathStep t) < int (length p)" by simp
qed simp_all

theorem routeIndex_in_range_witness:
  "(\<exists>s. run_nav config_nav [Reset, Confirmed 1000 ''two'', TimerFired, Confirmed 2000 ''washroom'']
           (nav_init ''door'') = Some s \<and>
        path s = Some [''two'', ''washroom'', ''caution'', ''door''] \<and>
        0 \<le> int (pathStep s) \<and> int (pathStep s) < 4) \<and>
   (\<exists>t. run_int config_int [Reset, Confirmed 1000 ''elevator'', Confirmed 2000 ''washroom'']
           (int_init ''exitdoor'') = Some t \<and>
        path t = Some [''elevator'', ''washroom'', ''mainhall'', ''exitdoor''] \<and>
        0 \<le> int (pathStep t) \<and> int (pathStep t) < 4)"
proof -
  obtain s where s:
    "run_nav config_nav [Reset, Confirmed 1000 ''two'', TimerFired, Confirmed 2000 ''washroom'']
       (nav_init ''door'') = Some s"
    "path s = Some [''two'', ''washroom'', ''caution'', ''door'']"
    by (simp add: nav_eval config_nav_def edges_nav_def)
  obtain t where t:
    "run_int config_int [Reset, Confirmed 1000 ''elevator'', Confirmed 2000 ''washroom'']
       (int_init ''exitdoor'') = Some t"
    "path t = Some [''elevator'', ''washroom'', ''mainhall'', ''exitdoor'']"
    by (simp add: int_eval config_int_def edges_int_def)
  note th = routeIndex_in_range[where cfg=config_nav and d="''door''" and s=s and
      evs="[Reset, Confirmed 1000 ''two'', TimerFired, Confirmed 2000 ''washroom'']" and
      cfg'=config_int and d'="''exitdoor''" and t=t and
      evs'="[Reset, Confirmed 1000 ''elevator'', Confirmed 2000 ''washroom'']"]
  from th s have
    "0 \<le> int (pathStep s) \<and> int (pathStep s) < int (length [''two'', ''washroom'', ''caution'', ''door''])"
    by blast
  then have a: "0 \<le> int (pathStep s) \<and> int (pathStep s) < 4" by simp
  from th t have
    "0 \<le> int (pathStep t) \<and>
     int (pathStep t) < int (length [''elevator'', ''washroom'', ''mainhall'', ''exitdoor''])"
    by blast
  then have b: "0 \<le> int (pathStep t) \<and> int (pathStep t) < 4" by simp
  from a b s t show ?thesis by blast
qed


section \<open>Confirmations without a route\<close>

text \<open>
  On the tables the two components ship with, a route leads from every active landmark
  to every active landmark, and the destination selector and the keyword table offer
  active landmarks only. So in the components as shipped \<^verbatim>\<open>bfsPath\<close> never returns
  \<^verbatim>\<open>null\<close> to a handler, and the branches for a missing route are not taken.
\<close>

lemma shipped_tables_connected:
  "\<forall>a\<in>ACTIVE_NODES config_nav. \<forall>b\<in>ACTIVE_NODES config_nav.
     bfsPath (edges config_nav) a b \<noteq> Some None"
  "\<forall>a\<in>ACTIVE_NODES config_int. \<forall>b\<in>ACTIVE_NODES config_int.
     bfsPath (edges config_int) a b \<noteq> Some None"
  by (simp_all add: config_nav_def edges_nav_def config_int_def edges_int_def
        bfsPath_def edges_of_def walk_back.simps Let_def)

text \<open>
  What the branch would do on other tables: on the reference graph \<open>A \<rightarrow> B \<rightarrow> C\<close> with
  destination \<open>A\<close>, the first confirmation, of \<open>C\<close>, finds no route, and
  \<^verbatim>\<open>startRoutingFrom\<close> has already assigned \<^verbatim>\<open>currentNode = nodeId\<close>.
\<close>

lemma no_route_reference_graph:
  "bfsPath (edges config_abc) ''C'' ''A'' = Some None \<and>
   currentNode (nav_init ''A'') = None \<and>
   map_option currentNode (after (onNodeConfirmed_nav config_abc 1000 ''C'' (nav_init ''A'')))
     = Some (Some ''C'') \<and>
   currentNode (int_init ''A'') = None \<and>
   map_option currentNode (after (onNodeConfirmed_int config_abc 1000 ''C'' (int_init ''A'')))
     = Some (Some ''C'')"
  by (simp add: nav_eval int_eval config_abc_def)

text \<open>
  On any tables: when a landmark is confirmed while no current location is known and no
  route leads from it to the destination, the handler returns after announcing
  "No route found from here.", with the route unset and the route index 0; the current
  location is set to the confirmed landmark, and the confirmation time, the prompt flag
  and the cue are updated. Every other variable keeps its value.
\<close>

lemma no_route_first_confirmation:
  "(nodeId \<in> ACTIVE_NODES cfg \<and> currentNode s = None \<and>
    bfsPath (edges cfg) nodeId (destinationNode s) = Some None \<longrightarrow>
      onNodeConfirmed_nav cfg now nodeId s =
        Returned (s\<lparr>currentNode := Some nodeId, path := None, pathStep := 0,
                    lastSpoken := ''No route found from here.'',
                    segmentPrompted := False, lastConfirmedAt := now,
                    spoken := spoken s @ [(''No route found from here.'', True)],
                    cues := cues s + 1\<rparr>)) \<and>
   (nodeId' \<in> ACTIVE_NODES cfg' \<and> \<not> arrived t \<and> currentNode t = None \<and>
    bfsPath (edges cfg') nodeId' (destinationNode t) = Some None \<longrightarrow>
      onNodeConfirmed_int cfg' now' nodeId' t =
        Returned (t\<lparr>currentNode := Some nodeId', path := None, pathStep := 0,
                    lastSpoken := ''No route found from here.'',
                    segmentPrompted := False, lastConfirmedAt := now',
                    spoken := spoken t @ [(''No route found from here.'', True)],
                    cues := cues t + 1, lastNode := None\<rparr>))"
proof (intro conjI impI)
  assume a: "nodeId \<in> ACTIVE_NODES cfg \<and> currentNode s = None \<and>
    bfsPath (edges cfg) nodeId (destinationNode s) = Some None"
  then have "onNodeConfirmed_nav cfg now nodeId s =
      startRoutingFrom_nav cfg now nodeId (confirm_pre now s)"
    by (intro onNodeConfirmed_nav_start) (simp_all add: falsy_def)
  with a show "onNodeConfirmed_nav cfg now nodeId s =
        Returned (s\<lparr>currentNode := Some nodeId, path := None, pathStep := 0,
                    lastSpoken := ''No route found from here.'',
                    segmentPrompted := False, lastConfirmedAt := now,
                    spoken := spoken s @ [(''No route found from here.'', True)],
                    cues := cues s + 1\<rparr>)"
    by (simp add: startRoutingFrom_nav_def confirm_pre_def speak_def)
next
  assume a: "nodeId' \<in> ACTIVE_NODES cfg' \<and> \<not> arrived t \<and> currentNode t = None \<and>
    bfsPath (edges cfg') nodeId' (destinationNode t) = Some None"
  then have "onNodeConfirmed_int cfg' now' nodeId' t =
      startRoutingFrom_int cfg' now' nodeId' (confirm_pre now' t)"
    by (intro onNodeConfirmed_int_start) (simp_all add: falsy_def)
  with a show "onNodeConfirmed_int cfg' now' nodeId' t =
        Returned (t\<lparr>currentNode := Some nodeId', path := None, pathStep := 0,
                    lastSpoken := ''No route found from here.'',
                    segmentPrompted := False, lastConfirmedAt := now',
                    spoken := spoken t @ [(''No route found from here.'', True)],
                    cues := cues t + 1, lastNode := None\<rparr>)"
    by (simp add: startRoutingFrom_int_def confirm_pre_def speak_def)
qed

section \<open>Claims about off-route confirmations\<close>

text \<open>
  C7 as stated fails in IntegratedNavigation: with destination washroom, on the way
  from the exit door (expected next: main hall), confirming the washroom takes the
  off-route branch, which ends in \<^verbatim>\<open>bathroomArrivalMessage\<close>: the route is cleared, no
  re-route is announced and no next instruction is scheduled.
\<close>

theorem off_route_washroom_counterexample:
  "map_option path (run_int config_int [Confirmed 1000 ''exitdoor''] (int_init ''washroom''))
     = Some (Some [''exitdoor'', ''mainhall'', ''washroom'']) \<and>
   map_option pathStep (run_int config_int [Confirmed 1000 ''exitdoor''] (int_init ''washroom''))
     = Some 0 \<and>
   map_option currentNode (run_int config_int [Confirmed 1000 ''exitdoor''] (int_init ''washroom''))
     = Some (Some ''exitdoor'') \<and>
   map_option path
     (run_int config_int [Confirmed 1000 ''exitdoor'', Confirmed 2000 ''washroom'']
        (int_init ''washroom'')) = Some None \<and>
   map_option scheduled
     (run_int config_int [Confirmed 1000 ''exitdoor'', Confirmed 2000 ''washroom'']
        (int_init ''washroom'')) = Some [] \<and>
   map_option spoken
     (run_int config_int [Confirmed 1000 ''exitdoor'', Confirmed 2000 ''washroom'']
        (int_init ''washroom'')) =
     Some [(''You are at Exit door. Do a 180, then walk straight.'', True),
           (''You are at Bathroom. Go right. The door is in front of you. Walk with caution and open the door to enter. Choose next destination.'', True)]"
  by (simp add: int_eval config_int_def edges_int_def)

lemma announce_nav_segment:
  "path s = Some p \<Longrightarrow> Suc (pathStep s) < length p \<Longrightarrow>
   announceNextInstruction_nav cfg s =
     speak (getEdgeInstruction_nav cfg (p ! pathStep s) (p ! Suc (pathStep s))) True s"
  by (simp add: announceNextInstruction_nav_def step_ge)

lemma announce_int_segment:
  "path s = Some p \<Longrightarrow> \<not> falsy (currentNode s) \<Longrightarrow> Suc (pathStep s) < length p \<Longrightarrow>
   node_label cfg (p ! pathStep s) = Some l \<Longrightarrow>
   announceNextInstruction_int cfg s =
     Returned (speak (''You are at '' @ l @ ''. '' @
                 getEdgeInstruction_int cfg (p ! pathStep s) (p ! Suc (pathStep s))) True s)"
  by (simp add: announceNextInstruction_int_def step_ge)

text \<open>
  C7, amended. When the machine is mid-route and the confirmed landmark differs from
  the current node and from the expected next node, and a route leads from it to the
  destination, and (in IntegratedNavigation) it is not the washroom with destination
  washroom, then the machine sets the current location to the confirmed landmark,
  replaces the route by \<open>bfsPath\<close> from it to the destination, resets the route index
  to 0, announces the re-route and schedules \<^verbatim>\<open>announceNextInstruction\<close> after 350 ms;
  when that callback runs next and the new route has a next node, it announces the
  instruction of the first segment.
\<close>

theorem off_route_reroute:
  "(nodeId \<in> ACTIVE_NODES cfg \<and> path s = Some p \<and> currentNode s = Some c \<and> c \<noteq> [] \<and>
    nodeId \<noteq> c \<and> \<not> (Suc (pathStep s) < length p \<and> nodeId = p ! Suc (pathStep s)) \<and>
    bfsPath (edges cfg) nodeId (destinationNode s) = Some (Some p') \<and>
    node_label cfg nodeId = Some l \<longrightarrow>
      (\<exists>s'. onNodeConfirmed_nav cfg now nodeId s = Returned s' \<and>
            s' = s\<lparr>currentNode := Some nodeId, path := Some p', pathStep := 0,
                     lastSpoken := ''Re routing from '' @ l @ ''.'',
                     segmentPrompted := False, lastConfirmedAt := now,
                     spoken := spoken s @ [(''Re routing from '' @ l @ ''.'', True)],
                     cues := cues s + 1, scheduled := scheduled s @ [350]\<rparr> \<and>
            (scheduled s = [] \<and> 1 < length p' \<longrightarrow>
               spoken (timerFired_nav cfg s') =
                 spoken s' @ [(getEdgeInstruction_nav cfg nodeId (p' ! 1), True)]))) \<and>
   (nodeId' \<in> ACTIVE_NODES cfg' \<and> nodeId' \<noteq> [] \<and> \<not> arrived t \<and> path t = Some q \<and>
    currentNode t = Some c' \<and> c' \<noteq> [] \<and> nodeId' \<noteq> c' \<and>
    \<not> (Suc (pathStep t) < length q \<and> nodeId' = q ! Suc (pathStep t)) \<and>
    bfsPath (edges cfg') nodeId' (destinationNode t) = Some (Some q') \<and>
    \<not> (destinationNode t = ''washroom'' \<and> nodeId' = ''washroom'') \<and>
    node_label cfg' nodeId' = Some l' \<longrightarrow>
      (\<exists>t'. onNodeConfirmed_int cfg' now' nodeId' t = Returned t' \<and>
            t' = t\<lparr>currentNode := Some nodeId', path := Some q', pathStep := 0,
                     lastSpoken := ''You are at '' @ l' @ ''. Re routing.'',
                     segmentPrompted := False, lastConfirmedAt := now',
                     spoken := spoken t @ [(''You are at '' @ l' @ ''. Re routing.'', True)],
                     cues := cues t + 1, scheduled := scheduled t @ [350],
                     lastNode := Some c'\<rparr> \<and>
            (scheduled t = [] \<and> 1 < length q' \<longrightarrow>
               map_option spoken (after (timerFired_int cfg' t')) =
                 Some (spoken t' @
                   [(''You are at '' @ l' @ ''. '' @ getEdgeInstruction_int cfg' nodeId' (q' ! 1),
                     True)]))))"
proof (intro conjI impI)
  assume a: "nodeId \<in> ACTIVE_NODES cfg \<and> path s = Some p \<and> currentNode s = Some c \<and> c \<noteq> [] \<and>
    nodeId \<noteq> c \<and> \<not> (Suc (pathStep s) < length p \<and> nodeId = p ! Suc (pathStep s)) \<and>
    bfsPath (edges cfg) nodeId (destinationNode s) = Some (Some p') \<and>
    node_label cfg nodeId = Some l"
  let ?s' = "s\<lparr>currentNode := Some nodeId, path := Some p', pathStep := 0,
                     lastSpoken := ''Re routing from '' @ l @ ''.'',
                     segmentPrompted := False, lastConfirmedAt := now,
                     spoken := spoken s @ [(''Re routing from '' @ l @ ''.'', True)],
                     cues := cues s + 1, scheduled := scheduled s @ [350]\<rparr>"
  from a have "\<not> falsy (currentNode s)" "Some nodeId \<noteq> currentNode s"
    by (simp_all add: falsy_def)
  from onNodeConfirmed_nav_off[OF _ _ this(1) _ this(2), of cfg p now] a
  have r: "onNodeConfirmed_nav cfg now nodeId s = Returned ?s'"
    by (simp add: confirm_pre_def speak_def)
  from a have b: "bfsPath (edges cfg) nodeId (destinationNode s) = Some (Some p')" by simp
  have t: "spoken (timerFired_nav cfg ?s') =
             spoken ?s' @ [(getEdgeInstruction_nav cfg nodeId (p' ! 1), True)]"
    if "scheduled s = []" "1 < length p'"
  proof -
    have "timerFired_nav cfg ?s' = announceNextInstruction_nav cfg (?s'\<lparr>scheduled := []\<rparr>)"
      using that by (simp add: timerFired_nav_def)
    also have "\<dots> = speak (getEdgeInstruction_nav cfg (p' ! 0) (p' ! Suc 0)) True
                       (?s'\<lparr>scheduled := []\<rparr>)"
      using that announce_nav_segment[where s="?s'\<lparr>scheduled := []\<rparr>" and p=p' and cfg=cfg]
      by simp
    finally show ?thesis using bfsPath_route(3)[OF b] by (simp add: speak_def)
  qed
  from r t show "\<exists>s'. onNodeConfirmed_nav cfg now nodeId s = Returned s' \<and> s' = ?s' \<and>
            (scheduled s = [] \<and> 1 < length p' \<longrightarrow>
               spoken (timerFired_nav cfg s') =
                 spoken s' @ [(getEdgeInstruction_nav cfg nodeId (p' ! 1), True)])"
    by blast
next
  assume a: "nodeId' \<in> ACTIVE_NODES cfg' \<and> nodeId' \<noteq> [] \<and> \<not> arrived t \<and> path t = Some q \<and>
    currentNode t = Some c' \<and> c' \<noteq> [] \<and> nodeId' \<noteq> c' \<and>
    \<not> (Suc (pathStep t) < length q \<and> nodeId' = q ! Suc (pathStep t)) \<and>
    bfsPath (edges cfg') nodeId' (destinationNode t) = Some (Some q') \<and>
    \<not> (destinationNode t = ''washroom'' \<and> nodeId' = ''washroom'') \<and>
    node_label cfg' nodeId' = Some l'"
  let ?t' = "t\<lparr>currentNode := Some nodeId', path := Some q', pathStep := 0,
                     lastSpoken := ''You are at '' @ l' @ ''. Re routing.'',
                     segmentPrompted := False, lastConfirmedAt := now',
                     spoken := spoken t @ [(''You are at '' @ l' @ ''. Re routing.'', True)],
                     cues := cues t + 1, scheduled := scheduled t @ [350],
                     lastNode := Some c'\<rparr>"
  from a have "\<not> falsy (currentNode t)" "Some nodeId' \<noteq> currentNode t"
    by (simp_all add: falsy_def)
  from onNodeConfirmed_int_off[OF _ _ _ this(1) _ this(2), of cfg' q now'] a
  have r: "onNodeConfirmed_int cfg' now' nodeId' t = Returned ?t'"
    by (simp add: confirm_pre_def speak_def)
  from a have b: "bfsPath (edges cfg') nodeId' (destinationNode t) = Some (Some q')" by simp
  have f: "map_option spoken (after (timerFired_int cfg' ?t')) =
             Some (spoken ?t' @
               [(''You are at '' @ l' @ ''. '' @ getEdgeInstruction_int cfg' nodeId' (q' ! 1), True)])"
    if "scheduled t = []" "1 < length q'"
  proof -
    have "timerFired_int cfg' ?t' = announceNextInstruction_int cfg' (?t'\<lparr>scheduled := []\<rparr>)"
      using that by (simp add: timerFired_int_def)
    also have "\<dots> = Returned (speak (''You are at '' @ l' @ ''. '' @
                 getEdgeInstruction_int cfg' (q' ! 0) (q' ! Suc 0)) True (?t'\<lparr>scheduled := []\<rparr>))"
      using that a bfsPath_route(3)[OF b]
        announce_int_segment[where s="?t'\<lparr>scheduled := []\<rparr>" and p=q' and l=l' and cfg=cfg']
      by (simp add: falsy_def)
    finally show ?thesis using bfsPath_route(3)[OF b] by (simp add: speak_def)
  qed
  from r f show "\<exists>t'. onNodeConfirmed_int cfg' now' nodeId' t = Returned t' \<and> t' = ?t' \<and>
            (scheduled t = [] \<and> 1 < length q' \<longrightarrow>
               map_option spoken (after (timerFired_int cfg' t')) =
                 Some (spoken t' @
                   [(''You are at '' @ l' @ ''. '' @ getEdgeInstruction_int cfg' nodeId' (q' ! 1),
                     True)]))"
    by blast
qed


theorem off_route_reroute_witness:
  "(\<exists>s s'. run_nav config_nav [Confirmed 1000 ''two'', TimerFired] (nav_init ''door'') = Some s \<and>
      ''caution'' \<in> ACTIVE_NODES config_nav \<and>
      path s = Some [''two'', ''washroom'', ''caution'', ''door''] \<and> pathStep s = 0 \<and>
      currentNode s = Some ''two'' \<and>
      bfsPath (edges config_nav) ''caution'' (destinationNode s) = Some (Some [''caution'', ''door'']) \<and>
      node_label config_nav ''caution'' = Some ''Caution sign'' \<and>
      onNodeConfirmed_nav config_nav 2000 ''caution'' s = Returned s' \<and>
      currentNode s' = Some ''caution'' \<and> path s' = Some [''caution'', ''door''] \<and>
      pathStep s' = 0 \<and> scheduled s' = [350] \<and>
      spoken s' = spoken s @ [(''Re routing from Caution sign.'', True)] \<and>
      spoken (timerFired_nav config_nav s') =
        spoken s' @ [(''Landmark confirmed: caution sign. Take a right to reach the door.'', True)]) \<and>
   (\<exists>t t'. run_int config_int [Confirmed 1000 ''elevator''] (int_init ''exitdoor'') = Some t \<and>
      ''mainhall'' \<in> ACTIVE_NODES config_int \<and> \<not> arrived t \<and>
      path t = Some [''elevator'', ''washroom'', ''mainhall'', ''exitdoor''] \<and> pathStep t = 0 \<and>
      currentNode t = Some ''elevator'' \<and>
      bfsPath (edges config_int) ''mainhall'' (destinationNode t)
        = Some (Some [''mainhall'', ''exitdoor'']) \<and>
      node_label config_int ''mainhall'' = Some ''Main hall'' \<and>
      onNodeConfirmed_int config_int 2000 ''mainhall'' t = Returned t' \<and>
      currentNode t' = Some ''mainhall'' \<and> path t' = Some [''mainhall'', ''exitdoor''] \<and>
      pathStep t' = 0 \<and> scheduled t' = [350] \<and>
      spoken t' = spoken t @ [(''You are at Main hall. Re routing.'', True)] \<and>
      map_option spoken (after (timerFired_int config_int t')) =
        Some (spoken t' @ [(''You are at Main hall. Go right and walk straight.'', True)]))"
proof -
  obtain s where s:
    "run_nav config_nav [Confirmed 1000 ''two'', TimerFired] (nav_init ''door'') = Some s"
    "path s = Some [''two'', ''washroom'', ''caution'', ''door'']" "pathStep s = 0"
    "currentNode s = Some ''two''" "destinationNode s = ''door''" "scheduled s = []"
    by (simp add: nav_eval config_nav_def edges_nav_def)
  have sc: "''caution'' \<in> ACTIVE_NODES config_nav"
    "node_label config_nav ''caution'' = Some ''Caution sign''"
    "bfsPath (edges config_nav) ''caution'' ''door'' = Some (Some [''caution'', ''door''])"
    "getEdgeInstruction_nav config_nav ''caution'' ''door'' =
       ''Landmark confirmed: caution sign. Take a right to reach the door.''"
    by (simp_all add: nav_eval config_nav_def edges_nav_def)
  obtain t where t:
    "run_int config_int [Confirmed 1000 ''elevator''] (int_init ''exitdoor'') = Some t"
    "path t = Some [''elevator'', ''washroom'', ''mainhall'', ''exitdoor'']" "pathStep t = 0"
    "currentNode t = Some ''elevator''" "destinationNode t = ''exitdoor''" "scheduled t = []"
    "\<not> arrived t"
    by (simp add: int_eval config_int_def edges_int_def)
  have tc: "''mainhall'' \<in> ACTIVE_NODES config_int"
    "node_label config_int ''mainhall'' = Some ''Main hall''"
    "bfsPath (edges config_int) ''mainhall'' ''exitdoor'' = Some (Some [''mainhall'', ''exitdoor''])"
    "getEdgeInstruction_int config_int ''mainhall'' ''exitdoor'' = ''Go right and walk straight.''"
    by (simp_all add: int_eval config_int_def edges_int_def)
  note th = off_route_reroute[where cfg=config_nav and nodeId="''caution''" and s=s and
      p="[''two'', ''washroom'', ''caution'', ''door'']" and c="''two''" and
      p'="[''caution'', ''door'']" and l="''Caution sign''" and now=2000 and
      cfg'=config_int and nodeId'="''mainhall''" and t=t and
      q="[''elevator'', ''washroom'', ''mainhall'', ''exitdoor'']" and c'="''elevator''" and
      q'="[''mainhall'', ''exitdoor'']" and l'="''Main hall''" and now'=2000]
  from th s sc obtain s' where s':
    "onNodeConfirmed_nav config_nav 2000 ''caution'' s = Returned s'"
    "s' = s\<lparr>currentNode := Some ''caution'', path := Some [''caution'', ''door''], pathStep := 0,
             lastSpoken := ''Re routing from '' @ ''Caution sign'' @ ''.'',
             segmentPrompted := False, lastConfirmedAt := 2000,
             spoken := spoken s @ [(''Re routing from '' @ ''Caution sign'' @ ''.'', True)],
             cues := cues s + 1, scheduled := scheduled s @ [350]\<rparr>"
    "spoken (timerFired_nav config_nav s') =
       spoken s' @ [(getEdgeInstruction_nav config_nav ''caution'' ([''caution'', ''door''] ! 1), True)]"
    by auto
  from th t tc obtain t' where t':
    "onNodeConfirmed_int config_int 2000 ''mainhall'' t = Returned t'"
    "t' = t\<lparr>currentNode := Some ''mainhall'', path := Some [''mainhall'', ''exitdoor''],
             pathStep := 0, lastSpoken := ''You are at '' @ ''Main hall'' @ ''. Re routing.'',
             segmentPrompted := False, lastConfirmedAt := 2000,
             spoken := spoken t @ [(''You are at '' @ ''Main hall'' @ ''. Re routing.'', True)],
             cues := cues t + 1, scheduled := scheduled t @ [350], lastNode := Some ''elevator''\<rparr>"
    "map_option spoken (after (timerFired_int config_int t')) =
       Some (spoken t' @
         [(''You are at '' @ ''Main hall'' @ ''. '' @
           getEdgeInstruction_int config_int ''mainhall'' ([''mainhall'', ''exitdoor''] ! 1), True)])"
    by auto
  have "\<exists>s s'. run_nav config_nav [Confirmed 1000 ''two'', TimerFired] (nav_init ''door'') = Some s \<and>
      ''caution'' \<in> ACTIVE_NODES config_nav \<and>
      path s = Some [''two'', ''washroom'', ''caution'', ''door''] \<and> pathStep s = 0 \<and>
      currentNode s = Some ''two'' \<and>
      bfsPath (edges config_nav) ''caution'' (destinationNode s) = Some (Some [''caution'', ''door'']) \<and>
      node_label config_nav ''caution'' = Some ''Caution sign'' \<and>
      onNodeConfirmed_nav config_nav 2000 ''caution'' s = Returned s' \<and>
      currentNode s' = Some ''caution'' \<and> path s' = Some [''caution'', ''door''] \<and>
      pathStep s' = 0 \<and> scheduled s' = [350] \<and>
      spoken s' = spoken s @ [(''Re routing from Caution sign.'', True)] \<and>
      spoken (timerFired_nav config_nav s') =
        spoken s' @ [(''Landmark confirmed: caution sign. Take a right to reach the door.'', True)]"
    using s sc s' by (intro exI[of _ s] exI[of _ s']) simp
  moreover have "\<exists>t t'. run_int config_int [Confirmed 1000 ''elevator''] (int_init ''exitdoor'') = Some t \<and>
      ''mainhall'' \<in> ACTIVE_NODES config_int \<and> \<not> arrived t \<and>
      path t = Some [''elevator'', ''washroom'', ''mainhall'', ''exitdoor''] \<and> pathStep t = 0 \<and>
      currentNode t = Some ''elevator'' \<and>
      bfsPath (edges config_int) ''mainhall'' (destinationNode t)
        = Some (Some [''mainhall'', ''exitdoor'']) \<and>
      node_label config_int ''mainhall'' = Some ''Main hall'' \<and>
      onNodeConfirmed_int config_int 2000 ''mainhall'' t = Returned t' \<and>
      currentNode t' = Some ''mainhall'' \<and> path t' = Some [''mainhall'', ''exitdoor''] \<and>
      pathStep t' = 0 \<and> scheduled t' = [350] \<and>
      spoken t' = spoken t @ [(''You are at Main hall. Re routing.'', True)] \<and>
      map_option spoken (after (timerFired_int config_int t')) =
        Some (spoken t' @ [(''You are at Main hall. Go right and walk straight.'', True)])"
    using t tc t' by (intro exI[of _ t] exI[of _ t']) simp
  ultimately show ?thesis by blast
qed


section \<open>Claims about re-confirming the current landmark\<close>

lemma reconfirm_not_next:
  assumes "distinct p" "k < length p"
  shows "\<not> (Suc k < length p \<and> p ! k = p ! Suc k)"
  using assms by (auto simp: nth_eq_iff_index_eq)

text \<open>
  C8. In every reachable state with a route set (mid-route), confirming the landmark
  that is the current node leaves the route index and the current location unchanged
  and announces the current instruction again: in NavigationPage the instruction of
  the current segment (or "You have arrived." at the end of the route); in
  IntegratedNavigation "You are at <label>. <instruction>" of the current segment,
  when the route has a next node and the node has a label.
\<close>

theorem reconfirm_current_idempotent:
  "(run_nav cfg evs (nav_init d) = Some s \<and> path s = Some p \<and> currentNode s = Some nodeId \<and>
    nodeId \<in> ACTIVE_NODES cfg \<longrightarrow>
      (\<exists>s'. onNodeConfirmed_nav cfg now nodeId s = Returned s' \<and>
            pathStep s' = pathStep s \<and> currentNode s' = currentNode s \<and> path s' = path s \<and>
            spoken s' = spoken s @
              [(if Suc (pathStep s) < length p
                then getEdgeInstruction_nav cfg (p ! pathStep s) (p ! Suc (pathStep s))
                else ''You have arrived.'', True)])) \<and>
   (run_int cfg' evs' (int_init d') = Some t \<and> path t = Some q \<and> currentNode t = Some nodeId' \<and>
    nodeId' \<in> ACTIVE_NODES cfg' \<longrightarrow>
      (\<exists>t'. after (onNodeConfirmed_int cfg' now' nodeId' t) = Some t' \<and>
            pathStep t' = pathStep t \<and> currentNode t' = currentNode t \<and>
            (\<forall>l. Suc (pathStep t) < length q \<and> node_label cfg' nodeId' = Some l \<longrightarrow>
               onNodeConfirmed_int cfg' now' nodeId' t = Returned t' \<and> path t' = path t \<and>
               spoken t' = spoken t @
                 [(''You are at '' @ l @ ''. '' @
                   getEdgeInstruction_int cfg' nodeId' (q ! Suc (pathStep t)), True)])))"
proof (intro conjI impI)
  assume a: "run_nav cfg evs (nav_init d) = Some s \<and> path s = Some p \<and> currentNode s = Some nodeId \<and>
    nodeId \<in> ACTIVE_NODES cfg"
  then have "inv_nav s" using inv_nav_run[OF inv_nav_init] by blast
  with a have i: "nodeId \<noteq> []" "pathStep s < length p" "distinct p" "nodeId = p ! pathStep s"
    unfolding inv_nav_def by auto
  have nf: "\<not> falsy (currentNode s)" using a i(1) by (simp add: falsy_def)
  have nn: "\<not> (Suc (pathStep s) < length p \<and> nodeId = p ! Suc (pathStep s))"
    using reconfirm_not_next[OF i(3) i(2)] i(4) by simp
  from a have act: "nodeId \<in> ACTIVE_NODES cfg" and p: "path s = Some p"
    and c: "Some nodeId = currentNode s" by simp_all
  have r: "onNodeConfirmed_nav cfg now nodeId s =
             Returned (announceNextInstruction_nav cfg (confirm_pre now s))"
    by (rule onNodeConfirmed_nav_same[OF act p nf nn c])
  let ?s' = "announceNextInstruction_nav cfg (confirm_pre now s)"
  have "pathStep ?s' = pathStep s \<and> currentNode ?s' = currentNode s \<and> path ?s' = path s \<and>
        spoken ?s' = spoken s @
              [(if Suc (pathStep s) < length p
                then getEdgeInstruction_nav cfg (p ! pathStep s) (p ! Suc (pathStep s))
                else ''You have arrived.'', True)]"
    using p by (simp add: announceNextInstruction_nav_def confirm_pre_def speak_def step_ge)
  with r show "\<exists>s'. onNodeConfirmed_nav cfg now nodeId s = Returned s' \<and>
            pathStep s' = pathStep s \<and> currentNode s' = currentNode s \<and> path s' = path s \<and>
            spoken s' = spoken s @
              [(if Suc (pathStep s) < length p
                then getEdgeInstruction_nav cfg (p ! pathStep s) (p ! Suc (pathStep s))
                else ''You have arrived.'', True)]"
    by blast
next
  assume a: "run_int cfg' evs' (int_init d') = Some t \<and> path t = Some q \<and>
    currentNode t = Some nodeId' \<and> nodeId' \<in> ACTIVE_NODES cfg'"
  then have "inv_int cfg' t" using inv_int_run[OF inv_int_init] by blast
  with a have i: "nodeId' \<noteq> []" "pathStep t < length q" "distinct q" "nodeId' = q ! pathStep t"
    "\<not> arrived t"
    "pathStep t = length q - 1 \<longrightarrow> pathStep t = 0 \<or> node_label cfg' (destinationNode t) = None"
    unfolding inv_int_def by auto
  have nf: "\<not> falsy (currentNode t)" using a i(1) by (simp add: falsy_def)
  have nn: "\<not> (Suc (pathStep t) < length q \<and> nodeId' = q ! Suc (pathStep t))"
    using reconfirm_not_next[OF i(3) i(2)] i(4) by simp
  from a have act: "nodeId' \<in> ACTIVE_NODES cfg'" and p: "path t = Some q"
    and c: "Some nodeId' = currentNode t" by simp_all
  have r: "onNodeConfirmed_int cfg' now' nodeId' t =
             announceNextInstruction_int cfg' (confirm_pre now' t)"
    by (rule onNodeConfirmed_int_same[OF act i(5) p nf nn c])
  let ?t1 = "confirm_pre now' t"
  have p1: "path ?t1 = Some q" "\<not> falsy (currentNode ?t1)" "pathStep ?t1 = pathStep t"
    using p nf by (simp_all add: confirm_pre_def)
  show "\<exists>t'. after (onNodeConfirmed_int cfg' now' nodeId' t) = Some t' \<and>
            pathStep t' = pathStep t \<and> currentNode t' = currentNode t \<and>
            (\<forall>l. Suc (pathStep t) < length q \<and> node_label cfg' nodeId' = Some l \<longrightarrow>
               onNodeConfirmed_int cfg' now' nodeId' t = Returned t' \<and> path t' = path t \<and>
               spoken t' = spoken t @
                 [(''You are at '' @ l @ ''. '' @
                   getEdgeInstruction_int cfg' nodeId' (q ! Suc (pathStep t)), True)])"
  proof (cases "Suc (pathStep t) < length q")
    case True
    show ?thesis
    proof (cases "node_label cfg' nodeId'")
      case None
      with True p1 i(4) have "announceNextInstruction_int cfg' ?t1 = Threw TypeError ?t1"
        by (simp add: announceNextInstruction_int_def step_ge)
      with r None show ?thesis by (simp add: confirm_pre_def)
    next
      case (Some l)
      with True p1 i(4) have "announceNextInstruction_int cfg' ?t1 =
          Returned (speak (''You are at '' @ l @ ''. '' @
                 getEdgeInstruction_int cfg' nodeId' (q ! Suc (pathStep t))) True ?t1)"
        using announce_int_segment[where s="?t1" and p=q and l=l and cfg=cfg'] by simp
      with r Some p show ?thesis by (simp add: confirm_pre_def speak_def)
    qed
  next
    case False
    with i(2) have e: "pathStep t = length q - 1" by simp
    show ?thesis
    proof (cases "node_label cfg' (destinationNode t)")
      case None
      with False p1 have "announceNextInstruction_int cfg' ?t1 = Threw TypeError ?t1"
        by (simp add: announceNextInstruction_int_def step_ge confirm_pre_def)
      with r False show ?thesis by (simp add: confirm_pre_def)
    next
      case (Some l)
      with i(6) e have z: "pathStep t = 0" by simp
      from Some False p1 have "announceNextInstruction_int cfg' ?t1 =
          Returned (finishArrival (''You have arrived at '' @ l @ ''.'') ?t1)"
        by (simp add: announceNextInstruction_int_def step_ge confirm_pre_def)
      with r False z show ?thesis by (simp add: confirm_pre_def finishArrival_def speak_def)
    qed
  qed
qed


theorem reconfirm_current_idempotent_witness:
  "(\<exists>s s'. run_nav config_nav [Confirmed 1000 ''two'', TimerFired] (nav_init ''door'') = Some s \<and>
      path s = Some [''two'', ''washroom'', ''caution'', ''door''] \<and>
      currentNode s = Some ''two'' \<and> ''two'' \<in> ACTIVE_NODES config_nav \<and> pathStep s = 0 \<and>
      onNodeConfirmed_nav config_nav 2000 ''two'' s = Returned s' \<and>
      pathStep s' = 0 \<and> currentNode s' = Some ''two'' \<and>
      spoken s' = spoken s @
        [(''Landmark confirmed: 2 sign. Take a right to reach the washroom.'', True)]) \<and>
   (\<exists>t t'. run_int config_int [Confirmed 1000 ''elevator''] (int_init ''exitdoor'') = Some t \<and>
      path t = Some [''elevator'', ''washroom'', ''mainhall'', ''exitdoor''] \<and>
      currentNode t = Some ''elevator'' \<and> ''elevator'' \<in> ACTIVE_NODES config_int \<and>
      pathStep t = 0 \<and>
      onNodeConfirmed_int config_int 2000 ''elevator'' t = Returned t' \<and>
      pathStep t' = 0 \<and> currentNode t' = Some ''elevator'' \<and>
      spoken t' = spoken t @ [(''You are at Elevator. Go right and walk straight.'', True)])"
proof -
  obtain s where s:
    "run_nav config_nav [Confirmed 1000 ''two'', TimerFired] (nav_init ''door'') = Some s"
    "path s = Some [''two'', ''washroom'', ''caution'', ''door'']" "pathStep s = 0"
    "currentNode s = Some ''two''"
    by (simp add: nav_eval config_nav_def edges_nav_def)
  have sc: "''two'' \<in> ACTIVE_NODES config_nav"
    "getEdgeInstruction_nav config_nav ''two'' ''washroom'' =
       ''Landmark confirmed: 2 sign. Take a right to reach the washroom.''"
    by (simp_all add: nav_eval config_nav_def edges_nav_def)
  obtain t where t:
    "run_int config_int [Confirmed 1000 ''elevator''] (int_init ''exitdoor'') = Some t"
    "path t = Some [''elevator'', ''washroom'', ''mainhall'', ''exitdoor'']" "pathStep t = 0"
    "currentNode t = Some ''elevator''"
    by (simp add: int_eval config_int_def edges_int_def)
  have tc: "''elevator'' \<in> ACTIVE_NODES config_int"
    "node_label config_int ''elevator'' = Some ''Elevator''"
    "getEdgeInstruction_int config_int ''elevator'' ''washroom'' = ''Go right and walk straight.''"
    by (simp_all add: int_eval config_int_def edges_int_def)
  note th = reconfirm_current_idempotent[where cfg=config_nav and d="''door''" and s=s and
      evs="[Confirmed 1000 ''two'', TimerFired]" and nodeId="''two''" and now=2000 and
      p="[''two'', ''washroom'', ''caution'', ''door'']" and
      cfg'=config_int and d'="''exitdoor''" and t=t and
      evs'="[Confirmed 1000 ''elevator'']" and nodeId'="''elevator''" and now'=2000 and
      q="[''elevator'', ''washroom'', ''mainhall'', ''exitdoor'']"]
  from th s sc obtain s' where s':
    "onNodeConfirmed_nav config_nav 2000 ''two'' s = Returned s'"
    "pathStep s' = pathStep s" "currentNode s' = currentNode s"
    "spoken s' = spoken s @
       [(''Landmark confirmed: 2 sign. Take a right to reach the washroom.'', True)]"
    by auto
  from th t tc obtain t' where t':
    "onNodeConfirmed_int config_int 2000 ''elevator'' t = Returned t'"
    "pathStep t' = pathStep t" "currentNode t' = currentNode t"
    "spoken t' = spoken t @ [(''You are at Elevator. Go right and walk straight.'', True)]"
    by auto
  have "\<exists>s s'. run_nav config_nav [Confirmed 1000 ''two'', TimerFired] (nav_init ''door'') = Some s \<and>
      path s = Some [''two'', ''washroom'', ''caution'', ''door''] \<and>
      currentNode s = Some ''two'' \<and> ''two'' \<in> ACTIVE_NODES config_nav \<and> pathStep s = 0 \<and>
      onNodeConfirmed_nav config_nav 2000 ''two'' s = Returned s' \<and>
      pathStep s' = 0 \<and> currentNode s' = Some ''two'' \<and>
      spoken s' = spoken s @
        [(''Landmark confirmed: 2 sign. Take a right to reach the washroom.'', True)]"
    using s sc s' by (intro exI[of _ s] exI[of _ s']) simp
  moreover have
    "\<exists>t t'. run_int config_int [Confirmed 1000 ''elevator''] (int_init ''exitdoor'') = Some t \<and>
      path t = Some [''elevator'', ''washroom'', ''mainhall'', ''exitdoor''] \<and>
      currentNode t = Some ''elevator'' \<and> ''elevator'' \<in> ACTIVE_NODES config_int \<and>
      pathStep t = 0 \<and>
      onNodeConfirmed_int config_int 2000 ''elevator'' t = Returned t' \<and>
      pathStep t' = 0 \<and> currentNode t' = Some ''elevator'' \<and>
      spoken t' = spoken t @ [(''You are at Elevator. Go right and walk straight.'', True)]"
    using t tc t' by (intro exI[of _ t] exI[of _ t']) simp
  ultimately show ?thesis by blast
qed

section \<open>Claims about the bathroom arrival message\<close>

text \<open>
  C10. In IntegratedNavigation, when the destination is washroom and the washroom is
  confirmed mid-route, as the expected next node or as an off-route detection, the
  handler speaks the bathroom arrival message, with "Go left." when the user came from
  the elevator and "Go right." otherwise, and ends arrived with the route cleared.
\<close>

theorem bathroom_arrival:
  "''washroom'' \<in> ACTIVE_NODES cfg \<and> destinationNode s = ''washroom'' \<and> \<not> arrived s \<and>
   path s = Some p \<and> currentNode s = Some c \<and> c \<noteq> [] \<and>
   ((Suc (pathStep s) < length p \<and> p ! Suc (pathStep s) = ''washroom'') \<or> c \<noteq> ''washroom'') \<and>
   node_label cfg ''washroom'' = Some l \<longrightarrow>
     (let msg = ''You are at '' @ l @ ''. '' @
                (if c = ''elevator'' then ''Go left.'' else ''Go right.'') @
                '' The door is in front of you. Walk with caution and open the door to enter.'' @
                '' Choose next destination.''
      in onNodeConfirmed_int cfg now ''washroom'' s =
           Returned (s\<lparr>currentNode := Some ''washroom'', path := None, pathStep := 0,
                       lastSpoken := msg, segmentPrompted := True, lastConfirmedAt := now,
                       spoken := spoken s @ [(msg, True)], cues := cues s + 1,
                       lastNode := Some c, arrived := True\<rparr>))"
proof
  assume a: "''washroom'' \<in> ACTIVE_NODES cfg \<and> destinationNode s = ''washroom'' \<and> \<not> arrived s \<and>
   path s = Some p \<and> currentNode s = Some c \<and> c \<noteq> [] \<and>
   ((Suc (pathStep s) < length p \<and> p ! Suc (pathStep s) = ''washroom'') \<or> c \<noteq> ''washroom'') \<and>
   node_label cfg ''washroom'' = Some l"
  then have act: "''washroom'' \<in> ACTIVE_NODES cfg" and na: "\<not> arrived s"
    and p: "path s = Some p" and nf: "\<not> falsy (currentNode s)"
    by (simp_all add: falsy_def)
  show "let msg = ''You are at '' @ l @ ''. '' @
                (if c = ''elevator'' then ''Go left.'' else ''Go right.'') @
                '' The door is in front of you. Walk with caution and open the door to enter.'' @
                '' Choose next destination.''
      in onNodeConfirmed_int cfg now ''washroom'' s =
           Returned (s\<lparr>currentNode := Some ''washroom'', path := None, pathStep := 0,
                       lastSpoken := msg, segmentPrompted := True, lastConfirmedAt := now,
                       spoken := spoken s @ [(msg, True)], cues := cues s + 1,
                       lastNode := Some c, arrived := True\<rparr>)"
  proof (cases "Suc (pathStep s) < length p \<and> ''washroom'' = p ! Suc (pathStep s)")
    case True
    from onNodeConfirmed_int_next[OF act na p nf, of now] True a show ?thesis
      by (simp add: bathroomArrivalMessage_def finishArrival_def speak_def confirm_pre_def Let_def)
  next
    case False
    with a have "Some ''washroom'' \<noteq> currentNode s" by auto
    from onNodeConfirmed_int_off[OF act na p nf False this, of now] a show ?thesis
      by (simp add: bfsPath_def bathroomArrivalMessage_def finishArrival_def speak_def
            confirm_pre_def Let_def)
  qed
qed

theorem bathroom_arrival_witness:
  "(\<exists>s. run_int config_int [Confirmed 1000 ''elevator''] (int_init ''washroom'') = Some s \<and>
      ''washroom'' \<in> ACTIVE_NODES config_int \<and> destinationNode s = ''washroom'' \<and> \<not> arrived s \<and>
      path s = Some [''elevator'', ''washroom''] \<and> pathStep s = 0 \<and>
      currentNode s = Some ''elevator'' \<and> node_label config_int ''washroom'' = Some ''Bathroom'' \<and>
      map_option arrived (after (onNodeConfirmed_int config_int 2000 ''washroom'' s)) = Some True \<and>
      map_option path (after (onNodeConfirmed_int config_int 2000 ''washroom'' s)) = Some None \<and>
      map_option lastSpoken (after (onNodeConfirmed_int config_int 2000 ''washroom'' s)) =
        Some ''You are at Bathroom. Go left. The door is in front of you. Walk with caution and open the door to enter. Choose next destination.'') \<and>
   (\<exists>s. run_int config_int [Confirmed 1000 ''exitdoor''] (int_init ''washroom'') = Some s \<and>
      path s = Some [''exitdoor'', ''mainhall'', ''washroom''] \<and> pathStep s = 0 \<and>
      currentNode s = Some ''exitdoor'' \<and>
      map_option arrived (after (onNodeConfirmed_int config_int 2000 ''washroom'' s)) = Some True \<and>
      map_option path (after (onNodeConfirmed_int config_int 2000 ''washroom'' s)) = Some None \<and>
      map_option lastSpoken (after (onNodeConfirmed_int config_int 2000 ''washroom'' s)) =
        Some ''You are at Bathroom. Go right. The door is in front of you. Walk with caution and open the door to enter. Choose next destination.'')"
proof -
  have c: "''washroom'' \<in> ACTIVE_NODES config_int"
    "node_label config_int ''washroom'' = Some ''Bathroom''"
    by (simp_all add: node_label_def config_int_def)
  obtain s where s:
    "run_int config_int [Confirmed 1000 ''elevator''] (int_init ''washroom'') = Some s"
    "destinationNode s = ''washroom''" "\<not> arrived s"
    "path s = Some [''elevator'', ''washroom'']" "pathStep s = 0"
    "currentNode s = Some ''elevator''"
    by (simp add: int_eval config_int_def edges_int_def)
  obtain u where u:
    "run_int config_int [Confirmed 1000 ''exitdoor''] (int_init ''washroom'') = Some u"
    "destinationNode u = ''washroom''" "\<not> arrived u"
    "path u = Some [''exitdoor'', ''mainhall'', ''washroom'']" "pathStep u = 0"
    "currentNode u = Some ''exitdoor''"
    by (simp add: int_eval config_int_def edges_int_def)
  from bathroom_arrival[where cfg=config_int and s=s and p="[''elevator'', ''washroom'']" and
      c="''elevator''" and l="''Bathroom''" and now=2000] c s
  have a: "map_option arrived (after (onNodeConfirmed_int config_int 2000 ''washroom'' s)) = Some True"
    "map_option path (after (onNodeConfirmed_int config_int 2000 ''washroom'' s)) = Some None"
    "map_option lastSpoken (after (onNodeConfirmed_int config_int 2000 ''washroom'' s)) =
        Some ''You are at Bathroom. Go left. The door is in front of you. Walk with caution and open the door to enter. Choose next destination.''"
    by (simp_all add: Let_def)
  from bathroom_arrival[where cfg=config_int and s=u and
      p="[''exitdoor'', ''mainhall'', ''washroom'']" and
      c="''exitdoor''" and l="''Bathroom''" and now=2000] c u
  have b: "map_option arrived (after (onNodeConfirmed_int config_int 2000 ''washroom'' u)) = Some True"
    "map_option path (after (onNodeConfirmed_int config_int 2000 ''washroom'' u)) = Some None"
    "map_option lastSpoken (after (onNodeConfirmed_int config_int 2000 ''washroom'' u)) =
        Some ''You are at Bathroom. Go right. The door is in front of you. Walk with caution and open the door to enter. Choose next destination.''"
    by (simp_all add: Let_def)
  from c s a have "\<exists>s. run_int config_int [Confirmed 1000 ''elevator''] (int_init ''washroom'') = Some s \<and>
      ''washroom'' \<in> ACTIVE_NODES config_int \<and> destinationNode s = ''washroom'' \<and> \<not> arrived s \<and>
      path s = Some [''elevator'', ''washroom''] \<and> pathStep s = 0 \<and>
      currentNode s = Some ''elevator'' \<and> node_label config_int ''washroom'' = Some ''Bathroom'' \<and>
      map_option arrived (after (onNodeConfirmed_int config_int 2000 ''washroom'' s)) = Some True \<and>
      map_option path (after (onNodeConfirmed_int config_int 2000 ''washroom'' s)) = Some None \<and>
      map_option lastSpoken (after (onNodeConfirmed_int config_int 2000 ''washroom'' s)) =
        Some ''You are at Bathroom. Go left. The door is in front of you. Walk with caution and open the door to enter. Choose next destination.''"
    by (intro exI[of _ s]) simp
  moreover from u b have "\<exists>s. run_int config_int [Confirmed 1000 ''exitdoor''] (int_init ''washroom'') = Some s \<and>
      path s = Some [''exitdoor'', ''mainhall'', ''washroom''] \<and> pathStep s = 0 \<and>
      currentNode s = Some ''exitdoor'' \<and>
      map_option arrived (after (onNodeConfirmed_int config_int 2000 ''washroom'' s)) = Some True \<and>
      map_option path (after (onNodeConfirmed_int config_int 2000 ''washroom'' s)) = Some None \<and>
      map_option lastSpoken (after (onNodeConfirmed_int config_int 2000 ''washroom'' s)) =
        Some ''You are at Bathroom. Go right. The door is in front of you. Walk with caution and open the door to enter. Choose next destination.''"
    by (intro exI[of _ u]) simp
  ultimately show ?thesis by blast
qed


section \<open>Claims about the arrived state\<close>

text \<open>
  IntegratedNavigation has the arrival lock: once \<open>arrived\<close>, every confirmation
  returns at once and leaves every variable as it was, and the arrival is announced once.
\<close>

lemma arrived_ignored_int:
  "arrived s \<Longrightarrow> run_int cfg (map (\<lambda>(now, nodeId). Confirmed now nodeId) cs) s = Some s"
  by (induction cs) (auto simp: onNodeConfirmed_int_arrived)

lemma arrival_once_int:
  "map_option spoken
     (run_int config_int
        [Confirmed 1000 ''mainhall'', Confirmed 2000 ''exitdoor'', Confirmed 3000 ''exitdoor'',
         Confirmed 4000 ''mainhall'']
        (int_init ''exitdoor'')) =
   Some [(''You are at Main hall. Go right and walk straight.'', True),
         (''You have arrived at Exit door. Choose next destination.'', True)]"
  by (simp add: int_eval config_int_def edges_int_def)

text \<open>
  C2 fails in NavigationPage, which has no arrival lock: with destination washroom,
  after the confirmations of the 2 sign and of the washroom the arrival is announced,
  and a further confirmation of the washroom announces "You have arrived." again.
\<close>

theorem arrival_repeated_nav:
  "map_option path
     (run_nav config_nav [Confirmed 1000 ''two'', TimerFired, Confirmed 2000 ''washroom'']
        (nav_init ''washroom'')) = Some (Some [''two'', ''washroom'']) \<and>
   map_option pathStep
     (run_nav config_nav [Confirmed 1000 ''two'', TimerFired, Confirmed 2000 ''washroom'']
        (nav_init ''washroom'')) = Some 1 \<and>
   map_option spoken
     (run_nav config_nav [Confirmed 1000 ''two'', TimerFired, Confirmed 2000 ''washroom'']
        (nav_init ''washroom'')) =
     Some [(''Starting at 2 sign.'', True),
           (''Landmark confirmed: 2 sign. Take a right to reach the washroom.'', True),
           (''You have arrived.'', True)] \<and>
   map_option spoken
     (run_nav config_nav
        [Confirmed 1000 ''two'', TimerFired, Confirmed 2000 ''washroom'', Confirmed 3000 ''washroom'']
        (nav_init ''washroom'')) =
     Some [(''Starting at 2 sign.'', True),
           (''Landmark confirmed: 2 sign. Take a right to reach the washroom.'', True),
           (''You have arrived.'', True),
           (''You have arrived.'', True)]"
  by (simp add: nav_eval config_nav_def edges_nav_def)

section \<open>Claims about the debouncer\<close>

lemma acceptStable_calls_stable:
  "candidate d = Some nodeId \<Longrightarrow> stableMs \<le> now - candidateSince d \<Longrightarrow> \<forall>t\<in>set ts. now \<le> t \<Longrightarrow>
   acceptStable_calls (map (\<lambda>t. (t, nodeId)) ts) d = (replicate (length ts) True, d)"
  by (induction ts) (auto simp: acceptStable_def)

text \<open>
  C6. In every state of the debouncer: a call with an id other than the stored
  candidate stores the id and the call time and returns false; a call with the stored
  candidate changes nothing and returns true exactly when at least 500 ms have passed
  since the candidate was stored; and once that holds, further calls with the same id
  at later times all return true.
\<close>

theorem acceptStable_debounce:
  "(candidate d \<noteq> Some nodeId \<longrightarrow>
      acceptStable now nodeId d = (False, d\<lparr>candidate := Some nodeId, candidateSince := now\<rparr>)) \<and>
   (candidate d = Some nodeId \<longrightarrow>
      acceptStable now nodeId d = (500 \<le> now - candidateSince d, d)) \<and>
   (candidate d = Some nodeId \<and> 500 \<le> now - candidateSince d \<and> (\<forall>t\<in>set ts. now \<le> t) \<longrightarrow>
      acceptStable_calls (map (\<lambda>t. (t, nodeId)) ts) d = (replicate (length ts) True, d))"
  using acceptStable_calls_stable[of d nodeId now ts]
  by (simp add: acceptStable_def stableMs_def)

theorem acceptStable_debounce_witness:
  "candidate debouncer_init \<noteq> Some ''door'' \<and>
   acceptStable 1000 ''door'' debouncer_init =
     (False, \<lparr>candidate = Some ''door'', candidateSince = 1000\<rparr>) \<and>
   acceptStable 1499 ''door'' \<lparr>candidate = Some ''door'', candidateSince = 1000\<rparr> =
     (False, \<lparr>candidate = Some ''door'', candidateSince = 1000\<rparr>) \<and>
   acceptStable 1500 ''door'' \<lparr>candidate = Some ''door'', candidateSince = 1000\<rparr> =
     (True, \<lparr>candidate = Some ''door'', candidateSince = 1000\<rparr>) \<and>
   acceptStable_calls [(1600, ''door''), (1700, ''door'')]
     \<lparr>candidate = Some ''door'', candidateSince = 1000\<rparr> =
     ([True, True], \<lparr>candidate = Some ''door'', candidateSince = 1000\<rparr>)"
  using acceptStable_debounce[of debouncer_init "''door''" 1000 "[]"]
    acceptStable_debounce[of "\<lparr>candidate = Some ''door'', candidateSince = 1000\<rparr>" "''door''" 1499 "[]"]
    acceptStable_debounce[of "\<lparr>candidate = Some ''door'', candidateSince = 1000\<rparr>" "''door''" 1500
      "[1600, 1700]"]
  by (simp add: debouncer_init_def)

section \<open>Claims about voice commands\<close>

lemma includes_str_iff: "includes_str t k = (\<exists>pre post. t = pre @ k @ post)"
proof
  show "includes_str t k \<Longrightarrow> \<exists>pre post. t = pre @ k @ post"
  proof (induction t)
    case Nil
    then show ?case by simp
  next
    case (Cons c cs)
    from Cons.prems consider "take (length k) (c # cs) = k" | "includes_str cs k" by auto
    then show ?case
    proof cases
      case 1
      then have "c # cs = [] @ k @ drop (length k) (c # cs)"
        by (metis append_Nil append_take_drop_id)
      then show ?thesis by blast
    next
      case 2
      with Cons.IH obtain pre post where "cs = pre @ k @ post" by blast
      then have "c # cs = (c # pre) @ k @ post" by simp
      then show ?thesis by blast
    qed
  qed
next
  assume "\<exists>pre post. t = pre @ k @ post"
  then obtain pre post where t: "t = pre @ k @ post" by blast
  have "includes_str (pre @ k @ post) k"
  proof (induction pre)
    case Nil
    show ?case
    proof (cases "k @ post")
      case Nil
      then show ?thesis by simp
    next
      case (Cons a list)
      have "take (length k) (k @ post) = k" by simp
      with Cons show ?thesis by simp
    qed
  next
    case (Cons a pre)
    then show ?case by simp
  qed
  with t show "includes_str t k" by simp
qed

lemma matchKeyword_find:
  "matchKeyword km t = map_option snd (find (\<lambda>(k, d). includes_str t k) km)"
  by (induction km t rule: matchKeyword.induct) auto

lemma includes_str_dropWhile:
  "k \<noteq> [] \<Longrightarrow> \<not> P (hd k) \<Longrightarrow> includes_str (dropWhile P t) k = includes_str t k"
proof (induction t)
  case Nil
  then show ?case by simp
next
  case (Cons c cs)
  show ?case
  proof (cases "P c")
    case True
    have "take (length k) (c # cs) \<noteq> k"
    proof
      assume "take (length k) (c # cs) = k"
      with Cons.prems(1) have "hd k = c" by (cases k) auto
      with True Cons.prems(2) show False by simp
    qed
    with True Cons show ?thesis by simp
  next
    case False
    then show ?thesis by simp
  qed
qed

lemma includes_str_rev: "includes_str (rev t) (rev k) = includes_str t k"
proof -
  have "(\<exists>pre post. rev t = pre @ rev k @ post) = (\<exists>pre post. t = pre @ k @ post)"
  proof
    assume "\<exists>pre post. rev t = pre @ rev k @ post"
    then obtain pre post where "rev t = pre @ rev k @ post" by blast
    then have "rev (rev t) = rev (pre @ rev k @ post)" by simp
    then have "t = rev post @ k @ rev pre" by simp
    then show "\<exists>pre post. t = pre @ k @ post" by blast
  next
    assume "\<exists>pre post. t = pre @ k @ post"
    then obtain pre post where "t = pre @ k @ post" by blast
    then have "rev t = rev post @ rev k @ rev pre" by simp
    then show "\<exists>pre post. rev t = pre @ rev k @ post" by blast
  qed
  then show ?thesis by (simp add: includes_str_iff)
qed

lemma includes_str_trim:
  assumes "k \<noteq> []" "\<not> is_space (hd k)" "\<not> is_space (last k)"
  shows "includes_str (trim t) k = includes_str t k"
proof -
  have r: "rev k \<noteq> []" "\<not> is_space (hd (rev k))" using assms by (simp_all add: hd_rev)
  have "includes_str (trim t) k =
        includes_str (rev (dropWhile is_space (rev (dropWhile is_space t)))) (rev (rev k))"
    by (simp add: trim_def)
  also have "\<dots> = includes_str (dropWhile is_space (rev (dropWhile is_space t))) (rev k)"
    by (rule includes_str_rev)
  also have "\<dots> = includes_str (rev (dropWhile is_space t)) (rev k)"
    using r by (rule includes_str_dropWhile[where P=is_space])
  also have "\<dots> = includes_str (dropWhile is_space t) k" by (rule includes_str_rev)
  also have "\<dots> = includes_str t k"
    using assms(1,2) by (rule includes_str_dropWhile[where P=is_space])
  finally show ?thesis .
qed

lemma keywordMap_ends:
  "\<forall>(k, d)\<in>set keywordMap. k \<noteq> [] \<and> \<not> is_space (hd k) \<and> \<not> is_space (last k)"
  by (simp add: keywordMap_def is_space_def)

lemma find_cong_set: "(\<And>x. x \<in> set xs \<Longrightarrow> P x = Q x) \<Longrightarrow> find P xs = find Q xs"
  by (induction xs) auto

lemma matchKeyword_dest: "matchKeyword km t = Some m \<Longrightarrow> m \<in> snd ` set km"
  by (induction km t rule: matchKeyword.induct) (auto split: if_splits)

lemma keywordMap_dest_nonempty: "m \<in> snd ` set keywordMap \<Longrightarrow> m \<noteq> []"
  by (auto simp: keywordMap_def)

lemma letters_disjoint: "set lower_letters \<inter> set upper_letters = {}"
  by (simp add: lower_letters_def upper_letters_def)

lemma lower_char_upper:
  assumes "c \<in> set upper_letters"
  shows "lower_char c \<in> set lower_letters"
proof -
  have "length upper_letters = length lower_letters"
    by (simp add: upper_letters_def lower_letters_def)
  with assms obtain l where l: "map_of (zip upper_letters lower_letters) c = Some l"
    by (metis map_of_zip_is_None not_None_eq)
  then have "(c, l) \<in> set (zip upper_letters lower_letters)" by (rule map_of_SomeD)
  then have "l \<in> set lower_letters" by (rule set_zip_rightD)
  with l show ?thesis by (simp add: lower_char_def)
qed

lemma lower_char_other: "c \<notin> set upper_letters \<Longrightarrow> lower_char c = c"
proof -
  assume "c \<notin> set upper_letters"
  moreover have "length upper_letters = length lower_letters"
    by (simp add: upper_letters_def lower_letters_def)
  ultimately have "map_of (zip upper_letters lower_letters) c = None"
    by (simp add: map_of_zip_is_None)
  then show ?thesis by (simp add: lower_char_def)
qed

lemma lower_char_not_upper: "lower_char c \<notin> set upper_letters"
proof (cases "c \<in> set upper_letters")
  case True
  from lower_char_upper[OF this] letters_disjoint show ?thesis by blast
next
  case False
  then show ?thesis by (simp add: lower_char_other)
qed

lemma lower_char_fixed: "(lower_char c = c) = (c \<notin> set upper_letters)"
proof
  assume "lower_char c = c"
  with lower_char_not_upper[of c] show "c \<notin> set upper_letters" by simp
qed (rule lower_char_other)

lemma toLowerCase_no_upper: "set (toLowerCase raw) \<inter> set upper_letters = {}"
  using lower_char_not_upper by (auto simp: toLowerCase_def)

lemma toLowerCase_fixed: "(toLowerCase raw = raw) = (set raw \<inter> set upper_letters = {})"
proof -
  have "(map lower_char raw = raw) = (\<forall>c\<in>set raw. lower_char c = c)"
    by (induction raw) auto
  then show ?thesis by (auto simp: toLowerCase_def lower_char_fixed)
qed

lemmas voice_eval =
  matchedDestination_def matchedId_def keywordMap_def toLowerCase_def lower_char_def
  upper_letters_def lower_letters_def trim_def is_space_def

text \<open>
  C9. For every utterance, both voice handlers select the destination of the first
  entry of the keyword table, in declaration order, whose keyword is a substring of
  the lower-cased utterance (VoiceController trims it first, which changes no match);
  IntegratedNavigation passes it to \<^verbatim>\<open>setDestination\<close> unless it is the destination
  already, VoiceController looks its checkpoint up. The lower-cased utterance has the
  length of the utterance and no capital letter, and is the utterance itself exactly
  when that has none; trimming strips white space, the no-break space included, at
  both ends. "please take me to the bathroom" selects washroom, in any mixture of
  capital and small letters.
\<close>

theorem voice_first_keyword_match:
  "matchedDestination raw =
     map_option snd (find (\<lambda>(k, d). \<exists>pre post. toLowerCase raw = pre @ k @ post) keywordMap) \<and>
   matchedId raw =
     map_option snd (find (\<lambda>(k, d). \<exists>pre post. toLowerCase raw = pre @ k @ post) keywordMap) \<and>
   selected (onresult_int destination raw) =
     (case matchedDestination raw of
        None \<Rightarrow> None
      | Some m \<Rightarrow> if m = destination then None else Some m) \<and>
   selected (onresult_vc raw) =
     (case matchedId raw of None \<Rightarrow> None | Some m \<Rightarrow> map_of checkpoints m) \<and>
   length (toLowerCase raw) = length raw \<and>
   set (toLowerCase raw) \<inter> set upper_letters = {} \<and>
   (toLowerCase raw = raw) = (set raw \<inter> set upper_letters = {}) \<and>
   toLowerCase ''Please Take Me To The BATHROOM'' = ''please take me to the bathroom'' \<and>
   matchedDestination ''please take me to the bathroom'' = Some ''washroom'' \<and>
   matchedId ''please take me to the bathroom'' = Some ''washroom'' \<and>
   matchedDestination ''Please Take Me To The BATHROOM'' = Some ''washroom'' \<and>
   matchedId ''  PLEASE take me to the BathRoom '' = Some ''washroom'' \<and>
   trim (toLowerCase ([CHR 0xA0, CHR 0x09] @ ''Exit Door'' @ [CHR 0x0A, CHR 0xA0])) = ''exit door''"
proof (intro conjI)
  show a: "matchedDestination raw =
     map_option snd (find (\<lambda>(k, d). \<exists>pre post. toLowerCase raw = pre @ k @ post) keywordMap)"
    for raw
    unfolding matchedDestination_def matchKeyword_find
    by (rule arg_cong[where f="map_option snd"], rule find_cong_set)
       (auto simp: includes_str_iff)
  have "find (\<lambda>(k, d). includes_str (trim (toLowerCase raw)) k) keywordMap =
        find (\<lambda>(k, d). includes_str (toLowerCase raw) k) keywordMap" for raw
    by (rule find_cong_set) (use keywordMap_ends in \<open>auto simp: includes_str_trim\<close>)
  then show b: "matchedId raw =
     map_option snd (find (\<lambda>(k, d). \<exists>pre post. toLowerCase raw = pre @ k @ post) keywordMap)"
    for raw
    using a[of raw] by (simp add: matchedId_def matchedDestination_def matchKeyword_find)
  show "selected (onresult_int destination raw) =
     (case matchedDestination raw of
        None \<Rightarrow> None
      | Some m \<Rightarrow> if m = destination then None else Some m)"
  proof (cases "matchedDestination raw")
    case None
    then show ?thesis by (simp add: onresult_int_def)
  next
    case (Some m)
    then have "m \<noteq> []"
      using matchKeyword_dest keywordMap_dest_nonempty by (auto simp: matchedDestination_def)
    with Some show ?thesis by (simp add: onresult_int_def Let_def)
  qed
  show "selected (onresult_vc raw) =
     (case matchedId raw of None \<Rightarrow> None | Some m \<Rightarrow> map_of checkpoints m)"
  proof (cases "matchedId raw")
    case None
    then show ?thesis by (simp add: onresult_vc_def)
  next
    case (Some m)
    then have "m \<noteq> []"
      using matchKeyword_dest keywordMap_dest_nonempty by (auto simp: matchedId_def)
    with Some show ?thesis by (cases "map_of checkpoints m") (simp_all add: onresult_vc_def)
  qed
  show "length (toLowerCase raw) = length raw" by (simp add: toLowerCase_def)
  show "set (toLowerCase raw) \<inter> set upper_letters = {}" by (rule toLowerCase_no_upper)
  show "(toLowerCase raw = raw) = (set raw \<inter> set upper_letters = {})"
    by (rule toLowerCase_fixed)
  show "toLowerCase ''Please Take Me To The BATHROOM'' = ''please take me to the bathroom''"
    by (simp add: voice_eval)
  show "matchedDestination ''please take me to the bathroom'' = Some ''washroom''"
    by (simp add: voice_eval)
  show "matchedId ''please take me to the bathroom'' = Some ''washroom''"
    by (simp add: voice_eval)
  show "matchedDestination ''Please Take Me To The BATHROOM'' = Some ''washroom''"
    by (simp add: voice_eval)
  show "matchedId ''  PLEASE take me to the BathRoom '' = Some ''washroom''"
    by (simp add: voice_eval)
  show "trim (toLowerCase ([CHR 0xA0, CHR 0x09] @ ''Exit Door'' @ [CHR 0x0A, CHR 0xA0])) = ''exit door''"
    by (simp add: voice_eval)
qed

theorem voice_first_keyword_match_witness:
  "matchedDestination ''Please Take Me To The BATHROOM'' = Some ''washroom'' \<and>
   selected (onresult_int ''exitdoor'' ''Please Take Me To The BATHROOM'') = Some ''washroom'' \<and>
   selected (onresult_vc ''Please Take Me To The BATHROOM'') = Some ''Washroom'' \<and>
   set (toLowerCase ''Please Take Me To The BATHROOM'') \<inter> set upper_letters = {} \<and>
   toLowerCase ''Please Take Me To The BATHROOM'' \<noteq> ''Please Take Me To The BATHROOM''"
proof -
  note th = voice_first_keyword_match[of "''Please Take Me To The BATHROOM''" "''exitdoor''"]
  from th have m: "matchedDestination ''Please Take Me To The BATHROOM'' = Some ''washroom''"
    by blast
  from th have "matchedId ''Please Take Me To The BATHROOM'' =
      map_option snd (find (\<lambda>(k, d). \<exists>pre post.
        toLowerCase ''Please Take Me To The BATHROOM'' = pre @ k @ post) keywordMap)"
    and "matchedDestination ''Please Take Me To The BATHROOM'' =
      map_option snd (find (\<lambda>(k, d). \<exists>pre post.
        toLowerCase ''Please Take Me To The BATHROOM'' = pre @ k @ post) keywordMap)"
    by blast+
  with m have i: "matchedId ''Please Take Me To The BATHROOM'' = Some ''washroom''" by simp
  from th have "selected (onresult_int ''exitdoor'' ''Please Take Me To The BATHROOM'') =
     (case matchedDestination ''Please Take Me To The BATHROOM'' of
        None \<Rightarrow> None
      | Some m \<Rightarrow> if m = ''exitdoor'' then None else Some m)"
    by blast
  with m have a: "selected (onresult_int ''exitdoor'' ''Please Take Me To The BATHROOM'') =
     Some ''washroom''" by simp
  from th have "selected (onresult_vc ''Please Take Me To The BATHROOM'') =
     (case matchedId ''Please Take Me To The BATHROOM'' of
        None \<Rightarrow> None | Some m \<Rightarrow> map_of checkpoints m)"
    by blast
  with i have b: "selected (onresult_vc ''Please Take Me To The BATHROOM'') = Some ''Washroom''"
    by (simp add: checkpoints_def)
  from th have c: "set (toLowerCase ''Please Take Me To The BATHROOM'') \<inter> set upper_letters = {}"
    by blast
  from th have "(toLowerCase ''Please Take Me To The BATHROOM'' = ''Please Take Me To The BATHROOM'')
      = (set ''Please Take Me To The BATHROOM'' \<inter> set upper_letters = {})"
    by blast
  moreover have "CHR ''P'' \<in> set ''Please Take Me To The BATHROOM'' \<inter> set upper_letters"
    by (simp add: upper_letters_def)
  ultimately have d: "toLowerCase ''Please Take Me To The BATHROOM'' \<noteq>
      ''Please Take Me To The BATHROOM''" by blast
  from m a b c d show ?thesis by blast
qed

text \<open>
  Off the letters \<open>A\<close>--\<open>Z\<close>: \<^verbatim>\<open>toLowerCase\<close> folds the capital letters of Latin-1 and
  leaves the multiplication sign and the sharp s, and \<^verbatim>\<open>trim\<close> strips the no-break
  space, as VoiceController's status text shows.
\<close>

lemma toLowerCase_latin1:
  "toLowerCase [CHR 0xC9, CHR 0xD7, CHR 0xDE, CHR 0xDF, CHR 0xFF] =
     [CHR 0xE9, CHR 0xD7, CHR 0xFE, CHR 0xDF, CHR 0xFF]"
  by (simp add: voice_eval)

lemma onresult_vc_trims:
  "statusText (onresult_vc ([CHR 0xA0, CHR 0x09] @ ''Hello There'' @ [CHR 0x0A, CHR 0xA0])) =
     Some (''Heard: '' @ [CHR 0x22] @ ''hello there'' @ [CHR 0x22] @ '' - No checkpoint matched'')"
  by (simp add: onresult_vc_def voice_eval)

end
